theory Spec2Isabelle
  imports Complex_Main "HOL-Library.AList" "HOL-Library.Sublist"
begin

section \<open>The assembly graph of Unicycler: data model\<close>

text \<open>
  The development embeds \<^verbatim>\<open>build/lib/unicycler/assembly_graph.py\<close>.
  Python dictionaries keep their insertion order, and several loops of the source depend on
  it, so every dictionary is an association list whose keys are distinct: \<open>map_of d k\<close>
  reads \<^verbatim>\<open>d[k]\<close>, \<open>AList.update k v d\<close> is the assignment \<^verbatim>\<open>d[k] = v\<close>
  (in place for a key that exists, at the end for a new one) and list order is iteration
  order. Python integers are \<open>int\<close>. Read depths are Python floats; they are modelled
  as exact reals, so rounding is outside the model. Every exception of the source is a value
  of \<open>error\<close>, and a function that can raise returns \<open>error + 'a\<close>. When the source
  raises half-way through an update, the model returns the error only.
\<close>

datatype error = KeyError | ValueError | IndexError | ZeroDivisionError | AssertionError

datatype bridge_kind = SpadesContigBridge | LoopUnrollingBridge | LongReadBridge

text \<open>
  The bridge classes live in \<^verbatim>\<open>unicycler/bridge.py\<close>. The graph reads only the
  fields below; \<open>bridge_kind\<close> stands for the class of the object.
\<close>

record bridge_info =
  bridge_kind :: bridge_kind
  start_segment :: int
  end_segment :: int
  bridge_graph_path :: "int list"
  bridge_sequence :: string
  bridge_depth :: real
  quality :: real

record segment =
  number :: int
  depth :: real
  forward_sequence :: string
  reverse_sequence :: string
  bridge :: "bridge_info option"
  graph_path :: "int list option"

type_synonym links = "(int \<times> int list) list"

record graph =
  segments :: "(int \<times> segment) list"
  forward_links :: links
  reverse_links :: links
  copy_depths :: "(int \<times> real list) list"
  paths :: "(string \<times> int list) list"
  overlap :: nat

subsection \<open>Sequences\<close>

definition complement_forward :: string where
  "complement_forward = ''ATGCatgcRYSWKMryswkmBDHVbdhvNn.-?''"

definition complement_reverse :: string where
  "complement_reverse = ''TACGtacgYRSWMKyrswmkVHDBvhdbNn.-?N''"

text \<open>\<^verbatim>\<open>str.find\<close> of one character: its first index, or \<open>-1\<close>.\<close>

fun str_find :: "string \<Rightarrow> char \<Rightarrow> int" where
  "str_find [] c = -1"
| "str_find (x # xs) c =
     (if x = c then 0 else (let r = str_find xs c in if r < 0 then -1 else r + 1))"

text \<open>
  \<^verbatim>\<open>reverse[forward.find(base)]\<close>: index \<open>-1\<close> reads the last character of
  \<^verbatim>\<open>reverse\<close>, the extra \<open>N\<close>.
\<close>

definition complement_base :: "char \<Rightarrow> char" where
  "complement_base base =
     (let i = str_find complement_forward base
      in if i < 0 then last complement_reverse else complement_reverse ! nat i)"

definition reverse_complement :: "string \<Rightarrow> string" where
  "reverse_complement seq = map complement_base (rev seq)"

text \<open>The constructor \<^verbatim>\<open>Segment(number, depth, sequence, positive, bridge, graph_path)\<close>.\<close>

definition Segment ::
  "int \<Rightarrow> real \<Rightarrow> string \<Rightarrow> bool \<Rightarrow> bridge_info option \<Rightarrow> int list option \<Rightarrow> segment" where
  "Segment num d sequence positive b gp =
     \<lparr>number = num, depth = d,
      forward_sequence = (if positive then sequence else []),
      reverse_sequence = (if positive then [] else sequence),
      bridge = b, graph_path = gp\<rparr>"

definition build_other_sequence_if_necessary :: "segment \<Rightarrow> segment" where
  "build_other_sequence_if_necessary s =
     (let s1 = (if forward_sequence s = []
                then s\<lparr>forward_sequence := reverse_complement (reverse_sequence s)\<rparr> else s)
      in if reverse_sequence s1 = []
         then s1\<lparr>reverse_sequence := reverse_complement (forward_sequence s1)\<rparr> else s1)"

definition get_length :: "segment \<Rightarrow> int" where
  "get_length s = int (length (forward_sequence s))"

definition get_length_no_overlap :: "segment \<Rightarrow> nat \<Rightarrow> int" where
  "get_length_no_overlap s ov = int (length (forward_sequence s)) - int ov"

subsection \<open>The link table\<close>

text \<open>
  \<open>links_of d k\<close> is the list stored under \<open>k\<close>, empty when the key is missing. It is a
  reading aid of the statements; the operations below test the key as the source does.
\<close>

definition links_of :: "links \<Rightarrow> int \<Rightarrow> int list" where
  "links_of d k = (case map_of d k of None \<Rightarrow> [] | Some l \<Rightarrow> l)"

text \<open>
  One of the four blocks of \<^verbatim>\<open>add_link\<close>: create the key with an empty list when it
  is missing, append the value unless the list already holds it.
\<close>

definition link_insert :: "int \<Rightarrow> int \<Rightarrow> links \<Rightarrow> links" where
  "link_insert k v d =
     (case map_of d k of
        None \<Rightarrow> AList.update k [v] d
      | Some l \<Rightarrow> if v \<in> set l then d else AList.update k (l @ [v]) d)"

definition add_link :: "int \<Rightarrow> int \<Rightarrow> graph \<Rightarrow> graph" where
  "add_link start end g =
     g\<lparr>forward_links := link_insert (- end) (- start) (link_insert start end (forward_links g)),
       reverse_links := link_insert (- start) (- end) (link_insert end start (reverse_links g))\<rparr>"

text \<open>
  One of the four statements of \<^verbatim>\<open>remove_link\<close>:
  \<^verbatim>\<open>if k in d: d[k].remove(v)\<close>. \<^verbatim>\<open>list.remove\<close> deletes the first occurrence
  and raises \<^verbatim>\<open>ValueError\<close> when there is none.
\<close>

definition link_remove :: "int \<Rightarrow> int \<Rightarrow> links \<Rightarrow> error + links" where
  "link_remove k v d =
     (case map_of d k of
        None \<Rightarrow> Inr d
      | Some l \<Rightarrow> if v \<in> set l then Inr (AList.update k (remove1 v l) d) else Inl ValueError)"

definition remove_link :: "int \<Rightarrow> int \<Rightarrow> graph \<Rightarrow> error + graph" where
  "remove_link start end g =
     (case link_remove start end (forward_links g) of
        Inl e \<Rightarrow> Inl e
      | Inr f1 \<Rightarrow>
     (case link_remove (- end) (- start) f1 of
        Inl e \<Rightarrow> Inl e
      | Inr f2 \<Rightarrow>
     (case link_remove end start (reverse_links g) of
        Inl e \<Rightarrow> Inl e
      | Inr r1 \<Rightarrow>
     (case link_remove (- start) (- end) r1 of
        Inl e \<Rightarrow> Inl e
      | Inr r2 \<Rightarrow> Inr (g\<lparr>forward_links := f2, reverse_links := r2\<rparr>)))))"

subsection \<open>GFA link lines\<close>

definition is_link_positive :: "int \<Rightarrow> int \<Rightarrow> bool" where
  "is_link_positive start end =
     (if start > 0 \<and> end > 0 then True
      else if start < 0 \<and> end < 0 then False
      else if start = - end then True
      else \<bar>start\<bar> > \<bar>end\<bar>)"

text \<open>
  The calls of \<^verbatim>\<open>gfa_link_line\<close> that \<^verbatim>\<open>get_all_gfa_link_lines\<close> makes, in
  order: one for every entry \<open>end\<close> of every list \<open>forward_links[start]\<close> that is positive.
\<close>

definition gfa_link_pairs :: "graph \<Rightarrow> (int \<times> int) list" where
  "gfa_link_pairs g =
     concat (map (\<lambda>(start, ends). map (Pair start) (filter (is_link_positive start) ends))
                 (forward_links g))"

subsection \<open>Segments, dead ends and removal\<close>

text \<open>\<^verbatim>\<open>max(self.segments) + 1\<close>; \<^verbatim>\<open>max\<close> of an empty dictionary raises.\<close>

definition get_next_available_seg_number :: "graph \<Rightarrow> error + int" where
  "get_next_available_seg_number g =
     (case map fst (segments g) of
        [] \<Rightarrow> Inl ValueError
      | k # ks \<Rightarrow> Inr (fold max ks k + 1))"

definition dead_end_count :: "graph \<Rightarrow> int \<Rightarrow> int" where
  "dead_end_count g seg_num =
     (if map_of (forward_links g) seg_num = None \<or> links_of (forward_links g) seg_num = []
      then 1 else 0) +
     (if map_of (reverse_links g) seg_num = None \<or> links_of (reverse_links g) seg_num = []
      then 1 else 0)"

text \<open>
  The counting loops of \<^verbatim>\<open>dead_end_change_if_deleted\<close>:
  \<^verbatim>\<open>for x in xs: if len(d[x]) == 1: potential_dead_ends += 1\<close>, where \<^verbatim>\<open>d[x]\<close>
  raises \<^verbatim>\<open>KeyError\<close> for a missing key.
\<close>

fun count_single_linked :: "links \<Rightarrow> int list \<Rightarrow> error + int" where
  "count_single_linked d [] = Inr 0"
| "count_single_linked d (x # xs) =
     (case map_of d x of
        None \<Rightarrow> Inl KeyError
      | Some l \<Rightarrow>
          (case count_single_linked d xs of
             Inl e \<Rightarrow> Inl e
           | Inr n \<Rightarrow> Inr ((if length l = 1 then 1 else 0) + n)))"

definition dead_end_change_if_deleted :: "graph \<Rightarrow> int \<Rightarrow> error + int" where
  "dead_end_change_if_deleted g seg_num =
     (let downstream_segments = links_of (forward_links g) seg_num;
          upstream_segments = links_of (reverse_links g) seg_num
      in case count_single_linked (reverse_links g) downstream_segments of
           Inl e \<Rightarrow> Inl e
         | Inr n1 \<Rightarrow>
        (case count_single_linked (forward_links g) upstream_segments of
           Inl e \<Rightarrow> Inl e
         | Inr n2 \<Rightarrow> Inr (n1 + n2 - dead_end_count g seg_num)))"

text \<open>
  \<^verbatim>\<open>downstream_segments == 0\<close> compares a list with an integer: in Python a list
  is never equal to an integer, whatever it holds.
\<close>

definition list_equals_int :: "int list \<Rightarrow> int \<Rightarrow> bool" where
  "list_equals_int xs n = False"

definition dead_end_change_if_path_deleted :: "graph \<Rightarrow> int list \<Rightarrow> error + int" where
  "dead_end_change_if_path_deleted g path_segments =
     (if length path_segments < 2 then Inl IndexError
      else
        let start = path_segments ! 0;
            end = path_segments ! 1;
            downstream_segments = links_of (forward_links g) end;
            upstream_segments = links_of (reverse_links g) start
        in case count_single_linked (reverse_links g) downstream_segments of
             Inl e \<Rightarrow> Inl e
           | Inr n1 \<Rightarrow>
          (case count_single_linked (forward_links g) upstream_segments of
             Inl e \<Rightarrow> Inl e
           | Inr n2 \<Rightarrow>
               Inr (n1 + n2
                    - ((if list_equals_int downstream_segments 0 then 1 else 0)
                       + (if list_equals_int upstream_segments 0 then 1 else 0)))))"

text \<open>
  The value the specification asks of \<^verbatim>\<open>dead_end_change_if_path_deleted\<close>, written
  from its words: the successors of the path's last element and the predecessors of its
  first element that have no other link on that side, minus the dead ends the path's two
  ends already are.
\<close>

definition dead_end_change_spec :: "graph \<Rightarrow> int list \<Rightarrow> int" where
  "dead_end_change_spec g p =
     int (length (filter (\<lambda>d. length (links_of (reverse_links g) d) = 1)
                         (links_of (forward_links g) (last p))))
     + int (length (filter (\<lambda>u. length (links_of (forward_links g) u) = 1)
                           (links_of (reverse_links g) (hd p))))
     - ((if links_of (forward_links g) (last p) = [] then 1 else 0)
        + (if links_of (reverse_links g) (hd p) = [] then 1 else 0))"

definition remove_nums_from_links :: "links \<Rightarrow> int list \<Rightarrow> links" where
  "remove_nums_from_links d nums_to_remove =
     filter (\<lambda>(n_1, n_2). n_2 \<noteq> [])
       (map (\<lambda>(n_1, n_2). (n_1, filter (\<lambda>x. \<bar>x\<bar> \<notin> set nums_to_remove) n_2))
          (filter (\<lambda>(n_1, n_2). \<bar>n_1\<bar> \<notin> set nums_to_remove) d))"

definition remove_segments :: "int list \<Rightarrow> graph \<Rightarrow> graph" where
  "remove_segments nums_to_remove g =
     g\<lparr>segments := filter (\<lambda>(num, seg). num \<notin> set nums_to_remove) (segments g),
       copy_depths := filter (\<lambda>(num, ds). num \<notin> set nums_to_remove) (copy_depths g),
       forward_links := remove_nums_from_links (forward_links g) nums_to_remove,
       reverse_links := remove_nums_from_links (reverse_links g) nums_to_remove,
       paths := filter (\<lambda>(path_name, path_nums).
                   \<not> list_ex (\<lambda>x. x \<in> set path_nums) nums_to_remove \<and>
                   \<not> list_ex (\<lambda>x. - x \<in> set path_nums) nums_to_remove) (paths g)\<rparr>"

subsection \<open>Depth removal and bridge application\<close>

text \<open>
  \<^verbatim>\<open>min(xs, key=lambda x: abs(x - d))\<close>: the first element of the least distance.
\<close>

fun closest_to :: "real \<Rightarrow> real list \<Rightarrow> real \<Rightarrow> real" where
  "closest_to d [] best = best"
| "closest_to d (x # xs) best =
     closest_to d xs (if \<bar>x - d\<bar> < \<bar>best - d\<bar> then x else best)"

definition remove_segment_depth :: "int \<Rightarrow> real \<Rightarrow> graph \<Rightarrow> graph" where
  "remove_segment_depth seg_num0 depth_to_remove g =
     (let seg_num = \<bar>seg_num0\<bar>
      in case map_of (segments g) seg_num of
           None \<Rightarrow> g
         | Some seg \<Rightarrow>
             (let g1 = g\<lparr>segments :=
                         AList.update seg_num (seg\<lparr>depth := max 0 (depth seg - depth_to_remove)\<rparr>)
                           (segments g)\<rparr>
              in case map_of (copy_depths g) seg_num of
                   None \<Rightarrow> g1
                 | Some [] \<Rightarrow> g1
                 | Some (c # cs) \<Rightarrow>
                     g1\<lparr>copy_depths :=
                          AList.update seg_num
                            (remove1 (closest_to depth_to_remove cs c) (c # cs))
                            (copy_depths g)\<rparr>))"

text \<open>
  The two removal loops of \<^verbatim>\<open>apply_bridge\<close>:
  \<^verbatim>\<open>for link in self.forward_links[start]: self.remove_link(start, link)\<close>.
  The loop walks the very list that \<^verbatim>\<open>remove_link\<close> shortens in place, so the model
  keeps the loop's index \<open>i\<close> and reads the current list at each step, as Python's list
  iterator does. No two entries of the dictionaries share a list object (every list is
  built fresh), so reading the list again under its key is reading the same object.
\<close>

lemma links_of_update: "links_of (AList.update k v d) = (links_of d)(k := v)"
  by (auto simp: links_of_def update_conv' fun_eq_iff)

lemma link_remove_length:
  assumes "link_remove k v d = Inr d'"
  shows "length (links_of d' n) \<le> length (links_of d n)"
proof (cases "map_of d k")
  case None
  then show ?thesis using assms by (simp add: link_remove_def)
next
  case (Some l)
  then have d': "d' = AList.update k (remove1 v l) d" and v: "v \<in> set l"
    using assms by (auto simp: link_remove_def split: if_splits)
  have "links_of d k = l" using Some by (simp add: links_of_def)
  then show ?thesis using v by (simp add: d' links_of_update length_remove1)
qed

lemma remove_link_length:
  assumes "remove_link a b g = Inr g'"
  shows "length (links_of (forward_links g') n) \<le> length (links_of (forward_links g) n)
       \<and> length (links_of (reverse_links g') n) \<le> length (links_of (reverse_links g) n)"
proof -
  from assms obtain f1 f2 r1 r2 where
    h: "link_remove a b (forward_links g) = Inr f1" "link_remove (- b) (- a) f1 = Inr f2"
       "link_remove b a (reverse_links g) = Inr r1" "link_remove (- a) (- b) r1 = Inr r2"
       "g' = g\<lparr>forward_links := f2, reverse_links := r2\<rparr>"
    by (auto simp: remove_link_def split: sum.splits)
  show ?thesis
    using link_remove_length [OF h(1), of n] link_remove_length [OF h(2), of n]
      link_remove_length [OF h(3), of n] link_remove_length [OF h(4), of n] h(5)
    by simp
qed

function remove_outgoing_loop :: "int \<Rightarrow> nat \<Rightarrow> graph \<Rightarrow> error + graph" where
  "remove_outgoing_loop start i g =
     (case map_of (forward_links g) start of
        None \<Rightarrow> Inr g
      | Some l \<Rightarrow>
          if i < length l then
            (case remove_link start (l ! i) g of
               Inl e \<Rightarrow> Inl e
             | Inr g' \<Rightarrow>
                 remove_outgoing_loop start (Suc i) g')
          else Inr g)"
  by pat_completeness auto
termination
proof (relation "measure (\<lambda>(start, i, g). length (links_of (forward_links g) start) - i)")
  fix start :: int and i :: nat and g g' :: graph and l :: "int list"
  assume "map_of (forward_links g) start = Some l" and "i < length l"
    and "remove_link start (l ! i) g = Inr g'"
  then show "((start, Suc i, g'), (start, i, g))
       \<in> measure (\<lambda>(start, i, g). length (links_of (forward_links g) start) - i)"
    using remove_link_length [of start "l ! i" g g' start]
    by (auto simp: links_of_def [of "forward_links g"])
qed simp

function remove_incoming_loop :: "int \<Rightarrow> nat \<Rightarrow> graph \<Rightarrow> error + graph" where
  "remove_incoming_loop end i g =
     (case map_of (reverse_links g) end of
        None \<Rightarrow> Inr g
      | Some l \<Rightarrow>
          if i < length l then
            (case remove_link (l ! i) end g of
               Inl e \<Rightarrow> Inl e
             | Inr g' \<Rightarrow>
                 remove_incoming_loop end (Suc i) g')
          else Inr g)"
  by pat_completeness auto
termination
proof (relation "measure (\<lambda>(e, i, g). length (links_of (reverse_links g) e) - i)")
  fix e :: int and i :: nat and g g' :: graph and l :: "int list"
  assume "map_of (reverse_links g) e = Some l" and "i < length l"
    and "remove_link (l ! i) e g = Inr g'"
  then show "((e, Suc i, g'), (e, i, g))
       \<in> measure (\<lambda>(e, i, g). length (links_of (reverse_links g) e) - i)"
    using remove_link_length [of "l ! i" e g g' e]
    by (auto simp: links_of_def [of "reverse_links g"])
qed simp

definition apply_bridge ::
  "bridge_info \<Rightarrow> int \<Rightarrow> int \<Rightarrow> string \<Rightarrow> int list \<Rightarrow> graph \<Rightarrow> error + (graph \<times> segment)" where
  "apply_bridge b start end sequence gpath g =
     (case remove_outgoing_loop start 0 g of
        Inl e \<Rightarrow> Inl e
      | Inr g1 \<Rightarrow>
     (case remove_incoming_loop end 0 g1 of
        Inl e \<Rightarrow> Inl e
      | Inr g2 \<Rightarrow>
     (case get_next_available_seg_number g2 of
        Inl e \<Rightarrow> Inl e
      | Inr new_seg_num \<Rightarrow>
          (let new_seg = build_other_sequence_if_necessary
                           (Segment new_seg_num (bridge_depth b) sequence True (Some b) (Some gpath));
               g3 = g2\<lparr>segments := AList.update new_seg_num new_seg (segments g2)\<rparr>;
               g4 = add_link new_seg_num end (add_link start new_seg_num g3);
               g5 = fold (\<lambda>seg. remove_segment_depth seg (bridge_depth b)) gpath g4
           in Inr (g5, new_seg)))))"

subsection \<open>Paths\<close>

text \<open>Every consecutive pair of a path is a forward link.\<close>

fun path_linked :: "links \<Rightarrow> int list \<Rightarrow> bool" where
  "path_linked d [] = True"
| "path_linked d [x] = True"
| "path_linked d (x # y # r) = (y \<in> set (links_of d x) \<and> path_linked d (y # r))"

subsection \<open>Copy depths\<close>

text \<open>
  A relative error: a float, or \<^verbatim>\<open>float('inf')\<close>. \<open>xless\<close> and \<open>xle\<close> are Python's
  \<^verbatim>\<open><\<close> and \<^verbatim>\<open><=\<close> on such values, \<open>xmax a b\<close> is \<^verbatim>\<open>max(a, b)\<close>.
\<close>

datatype xreal = Fin real | PInf

fun xless :: "xreal \<Rightarrow> xreal \<Rightarrow> bool" where
  "xless (Fin a) (Fin b) = (a < b)"
| "xless (Fin a) PInf = True"
| "xless PInf b = False"

fun xle :: "xreal \<Rightarrow> xreal \<Rightarrow> bool" where
  "xle (Fin a) (Fin b) = (a \<le> b)"
| "xle a PInf = True"
| "xle PInf (Fin b) = False"

definition xmax :: "xreal \<Rightarrow> xreal \<Rightarrow> xreal" where
  "xmax a b = (if xless a b then b else a)"

definition get_error :: "real \<Rightarrow> real \<Rightarrow> xreal" where
  "get_error source target =
     (if target > 0 then Fin (\<bar>source - target\<bar> / target) else PInf)"

text \<open>Python's \<^verbatim>\<open>/\<close> raises \<^verbatim>\<open>ZeroDivisionError\<close> for a zero divisor.\<close>

definition scale_copy_depths :: "real \<Rightarrow> real list \<Rightarrow> error + (real list \<times> xreal)" where
  "scale_copy_depths target_depth source_depths =
     (let source_depth_sum = sum_list source_depths
      in if source_depth_sum = 0 then Inl ZeroDivisionError
         else
           (let scaling_factor = target_depth / source_depth_sum;
                scaled_depths = rev (sort (map (\<lambda>x. scaling_factor * x) source_depths));
                error = get_error source_depth_sum target_depth
            in Inr (scaled_depths, error)))"

definition get_segments_without_copies :: "graph \<Rightarrow> segment list" where
  "get_segments_without_copies g =
     filter (\<lambda>x. map_of (copy_depths g) (number x) = None) (map snd (segments g))"

definition get_segments_with_two_or_more_copies :: "graph \<Rightarrow> segment list" where
  "get_segments_with_two_or_more_copies g =
     filter (\<lambda>x. case map_of (copy_depths g) (number x) of
                    None \<Rightarrow> False | Some ds \<Rightarrow> length ds > 1)
            (map snd (segments g))"

definition lead_exclusively_to :: "graph \<Rightarrow> int \<Rightarrow> int \<Rightarrow> bool" where
  "lead_exclusively_to g segment_num_1 segment_num_2 =
     (case map_of (forward_links g) segment_num_1 of
        None \<Rightarrow> False | Some l \<Rightarrow> l = [segment_num_2])"

definition lead_exclusively_from :: "graph \<Rightarrow> int \<Rightarrow> int \<Rightarrow> bool" where
  "lead_exclusively_from g segment_num_1 segment_num_2 =
     (case map_of (reverse_links g) segment_num_1 of
        None \<Rightarrow> False | Some l \<Rightarrow> l = [segment_num_2])"

definition get_exclusive_inputs :: "graph \<Rightarrow> int \<Rightarrow> int list" where
  "get_exclusive_inputs g segment_number =
     (case map_of (reverse_links g) segment_number of
        None \<Rightarrow> []
      | Some l \<Rightarrow> map abs (filter (\<lambda>x. lead_exclusively_to g x segment_number) l))"

definition get_exclusive_outputs :: "graph \<Rightarrow> int \<Rightarrow> int list" where
  "get_exclusive_outputs g segment_number =
     (case map_of (forward_links g) segment_number of
        None \<Rightarrow> []
      | Some l \<Rightarrow> map abs (filter (\<lambda>x. lead_exclusively_from g x segment_number) l))"

definition all_have_copy_depths :: "graph \<Rightarrow> int list \<Rightarrow> bool" where
  "all_have_copy_depths g segment_numbers =
     list_all (\<lambda>num. map_of (copy_depths g) num \<noteq> None) segment_numbers"

text \<open>\<^verbatim>\<open>for num in nums: source_depths += self.copy_depths[num]\<close>.\<close>

fun gather_copy_depths :: "(int \<times> real list) list \<Rightarrow> int list \<Rightarrow> error + real list" where
  "gather_copy_depths cd [] = Inr []"
| "gather_copy_depths cd (num # nums) =
     (case map_of cd num of
        None \<Rightarrow> Inl KeyError
      | Some ds \<Rightarrow>
          (case gather_copy_depths cd nums of
             Inl e \<Rightarrow> Inl e
           | Inr rest \<Rightarrow> Inr (ds @ rest)))"

definition scale_copy_depths_from_source_segments ::
  "graph \<Rightarrow> int \<Rightarrow> int list \<Rightarrow> error + (real list \<times> xreal)" where
  "scale_copy_depths_from_source_segments g segment_number source_segment_numbers =
     (case gather_copy_depths (copy_depths g) source_segment_numbers of
        Inl e \<Rightarrow> Inl e
      | Inr source_depths \<Rightarrow>
          (case map_of (segments g) segment_number of
             None \<Rightarrow> Inl KeyError
           | Some seg \<Rightarrow> scale_copy_depths (depth seg) source_depths))"

text \<open>
  The body of the loop of \<^verbatim>\<open>merge_copy_depths\<close> for one side of one segment. The
  loop's state is \<open>(best_segment_num, best_new_depths, lowest_error)\<close>;
  \<^verbatim>\<open>best_source_nums\<close> is only printed and is left out.
\<close>

definition merge_candidate ::
  "graph \<Rightarrow> int \<Rightarrow> int list \<Rightarrow> int option \<times> real list \<times> xreal
     \<Rightarrow> error + (int option \<times> real list \<times> xreal)" where
  "merge_candidate g num sources st =
     (if sources \<noteq> [] \<and> all_have_copy_depths g sources then
        (case scale_copy_depths_from_source_segments g num sources of
           Inl e \<Rightarrow> Inl e
         | Inr (depths, error) \<Rightarrow>
             if xless error (snd (snd st)) then Inr (Some num, depths, error) else Inr st)
      else Inr st)"

fun merge_scan ::
  "graph \<Rightarrow> segment list \<Rightarrow> int option \<times> real list \<times> xreal
     \<Rightarrow> error + (int option \<times> real list \<times> xreal)" where
  "merge_scan g [] st = Inr st"
| "merge_scan g (seg # rest) st =
     (let num = number seg in
      case merge_candidate g num (get_exclusive_inputs g num) st of
        Inl e \<Rightarrow> Inl e
      | Inr st1 \<Rightarrow>
     (case merge_candidate g num (get_exclusive_outputs g num) st1 of
        Inl e \<Rightarrow> Inl e
      | Inr st2 \<Rightarrow> merge_scan g rest st2))"

text \<open>The result \<open>1\<close> or \<open>0\<close> of a propagation round is the boolean beside the graph.\<close>

definition merge_copy_depths :: "real \<Rightarrow> graph \<Rightarrow> error + (graph \<times> bool)" where
  "merge_copy_depths error_margin g =
     (let segs = get_segments_without_copies g in
      if segs = [] then Inr (g, False)
      else
        case merge_scan g segs (None, [], PInf) of
          Inl e \<Rightarrow> Inl e
        | Inr (best_segment_num, best_new_depths, lowest_error) \<Rightarrow>
            (case best_segment_num of
               None \<Rightarrow> Inr (g, False)
             | Some n \<Rightarrow>
                 if n \<noteq> 0 \<and> xless lowest_error (Fin error_margin)
                 then Inr (g\<lparr>copy_depths := AList.update n best_new_depths (copy_depths g)\<rparr>, True)
                 else Inr (g, False)))"

text \<open>
  \<^verbatim>\<open>all([not target or target == len(bins[i]) for i, target in enumerate(targets)])\<close>;
  a target is \<^verbatim>\<open>None\<close> or a length. The caller passes as many targets as bins.
\<close>

definition targets_met :: "nat option list \<Rightarrow> real list list \<Rightarrow> bool" where
  "targets_met targets bins =
     list_all (\<lambda>(target, b). target = None \<or> target = Some 0 \<or> target = Some (length b))
              (zip targets bins)"

fun shuffle_into_bins ::
  "real list \<Rightarrow> real list list \<Rightarrow> nat option list \<Rightarrow> real list list list" where
  "shuffle_into_bins [] bins targets =
     (if list_all (\<lambda>x. x \<noteq> []) bins \<and> targets_met targets bins then [bins] else [])"
| "shuffle_into_bins (item # items) bins targets =
     concat (map (\<lambda>i. shuffle_into_bins items (bins[i := bins ! i @ [item]]) targets)
                 [0..<length bins])"

fun get_error_for_multiple_segments_and_depths ::
  "graph \<Rightarrow> int list \<Rightarrow> real list list \<Rightarrow> xreal \<Rightarrow> error + xreal" where
  "get_error_for_multiple_segments_and_depths g [] cds max_error = Inr max_error"
| "get_error_for_multiple_segments_and_depths g (num # nums) cds max_error =
     (case map_of (segments g) num of
        None \<Rightarrow> Inl KeyError
      | Some seg \<Rightarrow>
          (case cds of
             [] \<Rightarrow> Inl IndexError
           | c # cs \<Rightarrow>
               get_error_for_multiple_segments_and_depths g nums cs
                 (xmax max_error (get_error (sum_list c) (depth seg)))))"

fun assign_copy_depths_where_needed ::
  "graph \<Rightarrow> int list \<Rightarrow> real list list \<Rightarrow> real \<Rightarrow> bool \<Rightarrow> error + (graph \<times> bool)" where
  "assign_copy_depths_where_needed g [] new_depths error_margin success = Inr (g, success)"
| "assign_copy_depths_where_needed g (num # nums) new_depths error_margin success =
     (if map_of (copy_depths g) num = None then
        (case map_of (segments g) num of
           None \<Rightarrow> Inl KeyError
         | Some seg \<Rightarrow>
             (case new_depths of
                [] \<Rightarrow> Inl IndexError
              | d # ds \<Rightarrow>
                  (case scale_copy_depths (depth seg) d of
                     Inl e \<Rightarrow> Inl e
                   | Inr (new_copy_depths, error) \<Rightarrow>
                       if xle error (Fin error_margin)
                       then assign_copy_depths_where_needed
                              (g\<lparr>copy_depths := AList.update num new_copy_depths (copy_depths g)\<rparr>)
                              nums ds error_margin True
                       else assign_copy_depths_where_needed g nums ds error_margin success)))
      else assign_copy_depths_where_needed g nums (tl new_depths) error_margin success)"

text \<open>
  The search for the arrangement of least error in \<^verbatim>\<open>redistribute_copy_depths\<close>;
  \<^verbatim>\<open>best_arrangement\<close> is unbound until an error is below infinity.
\<close>

fun best_arrangement ::
  "graph \<Rightarrow> int list \<Rightarrow> real list list list \<Rightarrow> xreal \<times> real list list option
     \<Rightarrow> error + (xreal \<times> real list list option)" where
  "best_arrangement g connections [] st = Inr st"
| "best_arrangement g connections (arrangement # rest) st =
     (case get_error_for_multiple_segments_and_depths g connections arrangement (Fin 0) of
        Inl e \<Rightarrow> Inl e
      | Inr error \<Rightarrow>
          best_arrangement g connections rest
            (if xless error (fst st) then (error, Some arrangement) else st))"

definition redistribute_connections :: "graph \<Rightarrow> int \<Rightarrow> int list option" where
  "redistribute_connections g num =
     (let c1 = get_exclusive_inputs g num;
          c2 = (if c1 = [] \<or> all_have_copy_depths g c1 then get_exclusive_outputs g num else c1)
      in if c2 = [] \<or> all_have_copy_depths g c2 then None else Some c2)"

fun redistribute_scan :: "real \<Rightarrow> graph \<Rightarrow> segment list \<Rightarrow> error + (graph \<times> bool)" where
  "redistribute_scan error_margin g [] = Inr (g, False)"
| "redistribute_scan error_margin g (seg # rest) =
     (let num = number seg in
      case redistribute_connections g num of
        None \<Rightarrow> redistribute_scan error_margin g rest
      | Some connections \<Rightarrow>
          (case map_of (copy_depths g) num of
             None \<Rightarrow> Inl KeyError
           | Some cds \<Rightarrow>
               (let bins = replicate (length connections) [];
                    targets = map (\<lambda>x. map_option length (map_of (copy_depths g) x)) connections;
                    arrangements = shuffle_into_bins cds bins targets
                in if arrangements = [] then redistribute_scan error_margin g rest
                   else
                     case best_arrangement g connections arrangements (PInf, None) of
                       Inl e \<Rightarrow> Inl e
                     | Inr (lowest_error, best) \<Rightarrow>
                         if xless lowest_error (Fin error_margin) then
                           (case best of
                              None \<Rightarrow> redistribute_scan error_margin g rest
                            | Some arr \<Rightarrow>
                                (case assign_copy_depths_where_needed g connections arr
                                        error_margin False of
                                   Inl e \<Rightarrow> Inl e
                                 | Inr (g', success) \<Rightarrow>
                                     if success then Inr (g', True)
                                     else redistribute_scan error_margin g' rest))
                         else redistribute_scan error_margin g rest)))"

definition redistribute_copy_depths :: "real \<Rightarrow> graph \<Rightarrow> error + (graph \<times> bool)" where
  "redistribute_copy_depths error_margin g =
     (let segs = get_segments_with_two_or_more_copies g in
      if segs = [] then Inr (g, False) else redistribute_scan error_margin g segs)"

text \<open>
  \<^verbatim>\<open>while self.merge_copy_depths(tolerance, verbosity): pass\<close>, and the recursion of
  \<^verbatim>\<open>determine_copy_depth_part_2\<close>. Not returning is the value \<open>None\<close>.
\<close>

partial_function (option) merge_until_stable :: "real \<Rightarrow> graph \<Rightarrow> (error + graph) option" where
  "merge_until_stable tolerance g =
     (case merge_copy_depths tolerance g of
        Inl e \<Rightarrow> Some (Inl e)
      | Inr (g', changed) \<Rightarrow> if changed then merge_until_stable tolerance g' else Some (Inr g'))"

partial_function (option) determine_copy_depth_part_2 ::
  "real \<Rightarrow> graph \<Rightarrow> (error + graph) option" where
  "determine_copy_depth_part_2 tolerance g =
     (case merge_until_stable tolerance g of
        None \<Rightarrow> None
      | Some (Inl e) \<Rightarrow> Some (Inl e)
      | Some (Inr g1) \<Rightarrow>
          (case redistribute_copy_depths tolerance g1 of
             Inl e \<Rightarrow> Some (Inl e)
           | Inr (g2, changed) \<Rightarrow>
               if changed then determine_copy_depth_part_2 tolerance g2 else Some (Inr g2)))"

subsection \<open>Floats\<close>

text \<open>
  A Python float is an IEEE 754 double: 53 significant bits, exponents from \<open>-1022\<close> to
  \<open>1023\<close>, subnormal numbers below. Every operation gives the exact result rounded to the
  nearest double, a tie to the one with even significand, and infinity when the rounded
  result is beyond the largest double. The rule that seeds the copy depths compares segment
  depths with such rounded products, so the rounding is modelled here; depths themselves
  are finite (no \<^verbatim>\<open>inf\<close> or \<^verbatim>\<open>nan\<close> read from a file).

  \<open>bit_length n\<close> is the number of binary digits of \<open>n\<close>; \<open>binade x\<close> is the exponent \<open>e\<close>
  with \<open>2 ^ e \<le> x < 2 ^ (e + 1)\<close>, for \<open>x > 0\<close>; \<open>ulp x\<close> is the distance between neighbouring
  doubles around \<open>x\<close>; \<open>round_even\<close> rounds to the nearest integer, a tie to the even one.
\<close>

function bit_length :: "nat \<Rightarrow> nat" where
  "bit_length n = (if n = 0 then 0 else Suc (bit_length (n div 2)))"
  by pat_completeness auto
termination
  by (relation "measure id") auto

declare bit_length.simps [simp del]

definition binade :: "real \<Rightarrow> int" where
  "binade x =
     (if 1 \<le> x then int (bit_length (nat \<lfloor>x\<rfloor>)) - 1
      else - int (bit_length (nat (\<lceil>1 / x\<rceil> - 1))))"

definition ulp :: "real \<Rightarrow> real" where
  "ulp x = 2 powi (max (binade \<bar>x\<bar>) (- 1022) - 52)"

definition round_even :: "real \<Rightarrow> int" where
  "round_even q =
     (let f = \<lfloor>q\<rfloor>; r = q - of_int f
      in if r < 1 / 2 then f else if 1 / 2 < r then f + 1 else if even f then f else f + 1)"

text \<open>The double nearest to a real number, were the exponent range unbounded above.\<close>

definition nearest_double :: "real \<Rightarrow> real" where
  "nearest_double x = (if x = 0 then 0 else of_int (round_even (x / ulp x)) * ulp x)"

datatype pyfloat = Finite real | PlusInfinity | MinusInfinity

definition to_float :: "real \<Rightarrow> pyfloat" where
  "to_float x =
     (let y = nearest_double x
      in if 2 ^ 1024 \<le> y then PlusInfinity
         else if y \<le> - (2 ^ 1024) then MinusInfinity
         else Finite y)"

text \<open>
  A decimal literal such as \<^verbatim>\<open>0.4\<close>, the product \<^verbatim>\<open>a * b\<close> and the sum \<^verbatim>\<open>a + b\<close>
  of two finite floats, and the comparisons \<^verbatim>\<open>d >= bound\<close> and \<^verbatim>\<open>d <= bound\<close> of a
  finite float with a float.
\<close>

definition float_literal :: "real \<Rightarrow> real" where
  "float_literal r = nearest_double r"

definition float_times :: "real \<Rightarrow> real \<Rightarrow> pyfloat" where
  "float_times a b = to_float (a * b)"

definition float_plus :: "real \<Rightarrow> real \<Rightarrow> pyfloat" where
  "float_plus a b = to_float (a + b)"

fun at_least :: "real \<Rightarrow> pyfloat \<Rightarrow> bool" where
  "at_least d (Finite b) = (b \<le> d)"
| "at_least d PlusInfinity = False"
| "at_least d MinusInfinity = True"

fun at_most :: "real \<Rightarrow> pyfloat \<Rightarrow> bool" where
  "at_most d (Finite b) = (d \<le> b)"
| "at_most d PlusInfinity = True"
| "at_most d MinusInfinity = False"

subsection \<open>Seeding the copy depths\<close>

text \<open>
  The loop of \<^verbatim>\<open>get_median_read_depth\<close> over the segments sorted by depth; \<open>0.0\<close> when
  the running length never reaches the half-way length.
\<close>

fun median_scan :: "nat \<Rightarrow> int \<Rightarrow> int \<Rightarrow> segment list \<Rightarrow> real" where
  "median_scan ov halfway_length length_so_far [] = 0"
| "median_scan ov halfway_length length_so_far (seg # rest) =
     (let l = length_so_far + get_length_no_overlap seg ov
      in if l \<ge> halfway_length then depth seg else median_scan ov halfway_length l rest)"

text \<open>
  \<^verbatim>\<open>sorted(segment_list, key=lambda x: x.depth)\<close> is a stable sort, as \<open>sort_key\<close> is;
  \<^verbatim>\<open>//\<close> is floor division, as \<open>div\<close> on \<open>int\<close> is.
\<close>

definition get_median_read_depth :: "graph \<Rightarrow> segment list option \<Rightarrow> real" where
  "get_median_read_depth g segment_list =
     (let segs = (case segment_list of
                    None \<Rightarrow> map snd (segments g)
                  | Some [] \<Rightarrow> map snd (segments g)
                  | Some l \<Rightarrow> l);
          sorted_segments = sort_key depth segs;
          total_length = sum_list (map (\<lambda>s. get_length_no_overlap s (overlap g)) sorted_segments);
          halfway_length = total_length div 2
      in median_scan (overlap g) halfway_length 0 sorted_segments)"

definition get_total_length :: "graph \<Rightarrow> int" where
  "get_total_length g = sum_list (map (\<lambda>(num, s). get_length s) (segments g))"

definition get_base_count_in_depth_range :: "graph \<Rightarrow> pyfloat \<Rightarrow> pyfloat \<Rightarrow> int" where
  "get_base_count_in_depth_range g min_depth max_depth =
     sum_list (map (\<lambda>(num, s). get_length s)
                (filter (\<lambda>(num, s). at_least (depth s) min_depth \<and> at_most (depth s) max_depth)
                   (segments g)))"

text \<open>
  The local variable \<^verbatim>\<open>single_copy_depth\<close> of \<^verbatim>\<open>determine_copy_depth\<close>. The four
  bounds are float products. The two fractions are true divisions of integers, which raise
  for an empty graph and otherwise give the double nearest to the quotient (the quotients
  lie between 0 and 1, so there is no overflow).
\<close>

definition single_copy_depth :: "graph \<Rightarrow> error + real" where
  "single_copy_depth g =
     (let min_half_median_for_diploid = float_literal (1 / 10);
          median_depth = get_median_read_depth g None;
          bases_near_half_median =
            get_base_count_in_depth_range g
              (float_times median_depth (float_literal (4 / 10)))
              (float_times median_depth (float_literal (6 / 10)));
          bases_near_double_median =
            get_base_count_in_depth_range g
              (float_times median_depth (float_literal (16 / 10)))
              (float_times median_depth (float_literal (24 / 10)));
          total_graph_bases = get_total_length g
      in if total_graph_bases = 0 then Inl ZeroDivisionError
         else
           (let half_median_frac =
                  nearest_double
                    (real_of_int bases_near_half_median / real_of_int total_graph_bases);
                double_median_frac =
                  nearest_double
                    (real_of_int bases_near_double_median / real_of_int total_graph_bases)
            in if half_median_frac > double_median_frac
                  \<and> half_median_frac \<ge> min_half_median_for_diploid
               then Inr (nearest_double (median_depth / 2))
               else Inr median_depth))"

definition at_most_one_link_per_end :: "graph \<Rightarrow> segment \<Rightarrow> bool" where
  "at_most_one_link_per_end g seg =
     (\<not> (case map_of (forward_links g) (number seg) of None \<Rightarrow> False | Some l \<Rightarrow> length l > 1)
      \<and> \<not> (case map_of (reverse_links g) (number seg) of None \<Rightarrow> False | Some l \<Rightarrow> length l > 1))"

definition exactly_one_link_per_end :: "graph \<Rightarrow> segment \<Rightarrow> bool" where
  "exactly_one_link_per_end g seg =
     (\<not> (case map_of (forward_links g) (number seg) of None \<Rightarrow> False | Some l \<Rightarrow> length l \<noteq> 1)
      \<and> \<not> (case map_of (reverse_links g) (number seg) of None \<Rightarrow> False | Some l \<Rightarrow> length l \<noteq> 1))"

text \<open>
  \<^verbatim>\<open>sorted(..., key=lambda x: x.get_length(), reverse=True)\<close> keeps equal elements in
  their original order.
\<close>

fun assign_first_single_copy ::
  "int \<Rightarrow> graph \<Rightarrow> segment list \<Rightarrow> graph \<times> bool" where
  "assign_first_single_copy min_single_copy_length g [] = (g, False)"
| "assign_first_single_copy min_single_copy_length g (seg # rest) =
     (if get_length seg < min_single_copy_length
      then assign_first_single_copy min_single_copy_length g rest
      else if exactly_one_link_per_end g seg
      then (g\<lparr>copy_depths := AList.update (number seg) [depth seg] (copy_depths g)\<rparr>, True)
      else assign_first_single_copy min_single_copy_length g rest)"

definition assign_single_copy_depth :: "int \<Rightarrow> graph \<Rightarrow> graph \<times> bool" where
  "assign_single_copy_depth min_single_copy_length g =
     assign_first_single_copy min_single_copy_length g
       (rev (sort_key get_length (rev (get_segments_without_copies g))))"

text \<open>
  \<^verbatim>\<open>while True: assignments = self.assign_single_copy_depth(...);
  self.determine_copy_depth_part_2(...); if not assignments: break\<close>.
\<close>

partial_function (option) single_copy_loop :: "graph \<Rightarrow> (error + graph) option" where
  "single_copy_loop g =
     (case assign_single_copy_depth 1000 g of
        (g1, assignments) \<Rightarrow>
          (case determine_copy_depth_part_2 (float_literal (2 / 10)) g1 of
             None \<Rightarrow> None
           | Some (Inl e) \<Rightarrow> Some (Inl e)
           | Some (Inr g2) \<Rightarrow> if assignments then single_copy_loop g2 else Some (Inr g2)))"

definition seed_single_copies :: "pyfloat \<Rightarrow> graph \<Rightarrow> graph" where
  "seed_single_copies max_depth g =
     fold (\<lambda>(seg_num, seg) h.
             if at_most (depth seg) max_depth \<and> at_most_one_link_per_end h seg
             then h\<lparr>copy_depths := AList.update (number seg) [depth seg] (copy_depths h)\<rparr>
             else h)
          (segments g) g"

definition determine_copy_depth :: "graph \<Rightarrow> (error + graph) option" where
  "determine_copy_depth g0 =
     (let g = g0\<lparr>copy_depths := []\<rparr>;
          initial_tolerance = float_literal (1 / 10);
          propogation_tolerance = float_literal (2 / 10)
      in case single_copy_depth g of
           Inl e \<Rightarrow> Some (Inl e)
         | Inr scd \<Rightarrow>
             (case determine_copy_depth_part_2 propogation_tolerance
                     (seed_single_copies (float_plus scd initial_tolerance) g) of
                None \<Rightarrow> None
              | Some (Inl e) \<Rightarrow> Some (Inl e)
              | Some (Inr g1) \<Rightarrow>
                  (case single_copy_loop g1 of
                     None \<Rightarrow> None
                   | Some (Inl e) \<Rightarrow> Some (Inl e)
                   | Some (Inr g2) \<Rightarrow> determine_copy_depth_part_2 1 g2)))"

subsection \<open>Multi-way junctions\<close>

text \<open>
  \<^verbatim>\<open>set(xs)\<close>, \<^verbatim>\<open>s.update(xs)\<close>, \<^verbatim>\<open>for x in s\<close> and \<^verbatim>\<open>list(s)\<close>. Python
  does not fix the order in which a set is walked, so the functions of this section take
  it as the parameter \<open>walk\<close>: \<open>walk xs\<close> is the order in which the interpreter walks the
  set that was filled with the elements of \<open>xs\<close>, one after the other. What is proved
  assumes only that a walk meets every element once (\<open>set_order\<close> below).
\<close>

definition get_seq_from_signed_seg_num :: "graph \<Rightarrow> int \<Rightarrow> error + string" where
  "get_seq_from_signed_seg_num g signed_num =
     (if signed_num > 0 then
        (case map_of (segments g) signed_num of
           None \<Rightarrow> Inl KeyError | Some s \<Rightarrow> Inr (forward_sequence s))
      else
        (case map_of (segments g) (- signed_num) of
           None \<Rightarrow> Inl KeyError | Some s \<Rightarrow> Inr (reverse_sequence s)))"

text \<open>
  The slices \<^verbatim>\<open>seq[:overlap]\<close> and \<^verbatim>\<open>seq[-overlap:]\<close>; the second is the whole
  sequence when the overlap is 0, since \<^verbatim>\<open>seq[-0:]\<close> is \<^verbatim>\<open>seq[0:]\<close>.
\<close>

definition seq_prefix :: "nat \<Rightarrow> string \<Rightarrow> string" where
  "seq_prefix ov s = take ov s"

definition seq_suffix :: "nat \<Rightarrow> string \<Rightarrow> string" where
  "seq_suffix ov s = (if ov = 0 then s else drop (length s - ov) s)"

text \<open>
  The test for a junction at \<open>seg_num\<close>: the \<^verbatim>\<open>continue\<close> branches give \<open>None\<close>,
  otherwise the lists \<^verbatim>\<open>starting_segs\<close> and \<^verbatim>\<open>ending_segs\<close>.
\<close>

definition junction_at ::
  "(int list \<Rightarrow> int list) \<Rightarrow> graph \<Rightarrow> int \<Rightarrow> (int list \<times> int list) option" where
  "junction_at walk g seg_num =
     (case map_of (forward_links g) seg_num of
        None \<Rightarrow> None
      | Some l \<Rightarrow>
          (let ending_segs = walk l in
           if length ending_segs < 2 then None
           else
             (let starting_segs =
                    walk (concat (map (\<lambda>e. links_of (reverse_links g) e) ending_segs)) in
              if length starting_segs < 2 then None
              else
                (let ending_segs_2 =
                       walk (concat (map (\<lambda>s. links_of (forward_links g) s) starting_segs)) in
                 if set ending_segs_2 \<noteq> set ending_segs then None
                 else Some (starting_segs, ending_segs)))))"

text \<open>
  \<^verbatim>\<open>for seg_num in segs: assert bridge_seq == slice(self.get_seq_from_signed_seg_num(seg_num))\<close>.
\<close>

fun assert_overlaps ::
  "graph \<Rightarrow> (string \<Rightarrow> string) \<Rightarrow> string \<Rightarrow> int list \<Rightarrow> error + unit" where
  "assert_overlaps g slice bridge_seq [] = Inr ()"
| "assert_overlaps g slice bridge_seq (seg_num # rest) =
     (case get_seq_from_signed_seg_num g seg_num of
        Inl e \<Rightarrow> Inl e
      | Inr s \<Rightarrow>
          if bridge_seq = slice s then assert_overlaps g slice bridge_seq rest
          else Inl AssertionError)"

text \<open>\<^verbatim>\<open>sum(self.segments[abs(x)].depth for x in segs)\<close>.\<close>

fun sum_depths :: "graph \<Rightarrow> int list \<Rightarrow> error + real" where
  "sum_depths g [] = Inr 0"
| "sum_depths g (x # xs) =
     (case map_of (segments g) \<bar>x\<bar> of
        None \<Rightarrow> Inl KeyError
      | Some s \<Rightarrow> (case sum_depths g xs of Inl e \<Rightarrow> Inl e | Inr t \<Rightarrow> Inr (depth s + t)))"

fun insert_num_in_list :: "int list \<Rightarrow> int \<Rightarrow> int \<Rightarrow> int \<Rightarrow> int list" where
  "insert_num_in_list [] val_1 val_2 insert_val = []"
| "insert_num_in_list [x] val_1 val_2 insert_val = [x]"
| "insert_num_in_list (x # y # r) val_1 val_2 insert_val =
     x # (if x = val_1 \<and> y = val_2 then [insert_val] else [])
       @ insert_num_in_list (y # r) val_1 val_2 insert_val"

text \<open>
  The rewiring of one junction. In each map the assignments are made in the order of the
  source: first those of the loop over \<^verbatim>\<open>starting_segs\<close>, then those of the loop over
  \<^verbatim>\<open>ending_segs\<close>, then the two entries of the new segment.
\<close>

definition repair_junction :: "graph \<Rightarrow> int list \<Rightarrow> int list \<Rightarrow> error + graph" where
  "repair_junction g starting_segs ending_segs =
     (case ending_segs of
        [] \<Rightarrow> Inl IndexError
      | e0 # _ \<Rightarrow>
     (case get_seq_from_signed_seg_num g e0 of
        Inl e \<Rightarrow> Inl e
      | Inr s0 \<Rightarrow>
     (let bridge_seq = seq_prefix (overlap g) s0 in
      case assert_overlaps g (seq_suffix (overlap g)) bridge_seq starting_segs of
        Inl e \<Rightarrow> Inl e
      | Inr u1 \<Rightarrow>
     (case assert_overlaps g (seq_prefix (overlap g)) bridge_seq ending_segs of
        Inl e \<Rightarrow> Inl e
      | Inr u2 \<Rightarrow>
     (case get_next_available_seg_number g of
        Inl e \<Rightarrow> Inl e
      | Inr bridge_num \<Rightarrow>
     (case sum_depths g starting_segs of
        Inl e \<Rightarrow> Inl e
      | Inr start_seg_depth_sum \<Rightarrow>
     (case sum_depths g ending_segs of
        Inl e \<Rightarrow> Inl e
      | Inr end_seg_depth_sum \<Rightarrow>
          (let bridge_depth = (start_seg_depth_sum + end_seg_depth_sum) / 2;
               bridge_seg = build_other_sequence_if_necessary
                              (Segment bridge_num bridge_depth bridge_seq True None None);
               f1 = fold (\<lambda>seg_num d. AList.update seg_num [bridge_num] d)
                         starting_segs (forward_links g);
               f2 = fold (\<lambda>seg_num d. AList.update (- seg_num) [- bridge_num] d)
                         ending_segs f1;
               f3 = AList.update bridge_num ending_segs f2;
               f4 = AList.update (- bridge_num) (map uminus starting_segs) f3;
               r1 = fold (\<lambda>seg_num d. AList.update (- seg_num) [- bridge_num] d)
                         starting_segs (reverse_links g);
               r2 = fold (\<lambda>seg_num d. AList.update seg_num [bridge_num] d)
                         ending_segs r1;
               r3 = AList.update bridge_num starting_segs r2;
               r4 = AList.update (- bridge_num) (map uminus ending_segs) r3;
               ps = map (\<lambda>(name, p).
                      (name,
                       fold (\<lambda>start_num p1.
                               fold (\<lambda>end_num p2.
                                       insert_num_in_list
                                         (insert_num_in_list p2 start_num end_num bridge_num)
                                         (- end_num) (- start_num) (- bridge_num))
                                    ending_segs p1)
                            starting_segs p))
                    (paths g)
           in Inr (g\<lparr>segments := AList.update bridge_num bridge_seg (segments g),
                     forward_links := f4, reverse_links := r4, paths := ps\<rparr>)))))))))"

text \<open>
  The \<^verbatim>\<open>for seg_num in seg_nums\<close> loop: the first junction found is repaired and the
  loop left by \<^verbatim>\<open>break\<close>; \<open>None\<close> is the loop's \<^verbatim>\<open>else\<close> branch.
\<close>

fun repair_first_junction ::
  "(int list \<Rightarrow> int list) \<Rightarrow> graph \<Rightarrow> int list \<Rightarrow> (error + graph) option" where
  "repair_first_junction walk g [] = None"
| "repair_first_junction walk g (seg_num # rest) =
     (case junction_at walk g seg_num of
        None \<Rightarrow> repair_first_junction walk g rest
      | Some (starting_segs, ending_segs) \<Rightarrow> Some (repair_junction g starting_segs ending_segs))"

partial_function (option) repair_multi_way_junctions ::
  "(int list \<Rightarrow> int list) \<Rightarrow> graph \<Rightarrow> (error + graph) option" where
  "repair_multi_way_junctions walk g =
     (case repair_first_junction walk g
             (map fst (segments g) @ map (\<lambda>x. - fst x) (segments g)) of
        None \<Rightarrow> Some (Inr g)
      | Some (Inl e) \<Rightarrow> Some (Inl e)
      | Some (Inr g') \<Rightarrow> repair_multi_way_junctions walk g')"

subsection \<open>Merging a simple path\<close>

text \<open>
  Modelled from the spec: \<^verbatim>\<open>weighted_average_list\<close> of \<^verbatim>\<open>unicycler/misc.py\<close> is
  not among the sources. The specification says the depth of a merged segment is the
  weighted mean of the component depths, with weights \<open>length - overlap\<close>.
\<close>

definition weighted_average_list :: "real list \<Rightarrow> int list \<Rightarrow> real" where
  "weighted_average_list nums weights =
     sum_list (map (\<lambda>(n, w). n * real_of_int w) (zip nums weights)) / real_of_int (sum_list weights)"

text \<open>
  The loop of \<^verbatim>\<open>get_path_sequence\<close> after the first segment: \<open>prev\<close> is
  \<^verbatim>\<open>prev_segment_number\<close>, \<open>acc\<close> the sequence built so far.
\<close>

fun path_sequence_loop :: "graph \<Rightarrow> int \<Rightarrow> string \<Rightarrow> int list \<Rightarrow> error + string" where
  "path_sequence_loop g prev acc [] = Inr acc"
| "path_sequence_loop g prev acc (seg_num # rest) =
     (case get_seq_from_signed_seg_num g seg_num of
        Inl e \<Rightarrow> Inl e
      | Inr seg_sequence \<Rightarrow>
          (case map_of (forward_links g) prev of
             None \<Rightarrow> Inl KeyError
           | Some l \<Rightarrow>
               if seg_num \<notin> set l then Inl AssertionError
               else if overlap g > 0
                       \<and> seq_suffix (overlap g) acc \<noteq> seq_prefix (overlap g) seg_sequence
               then Inl AssertionError
               else path_sequence_loop g seg_num (acc @ drop (overlap g) seg_sequence) rest))"

definition get_path_sequence :: "graph \<Rightarrow> int list \<Rightarrow> error + string" where
  "get_path_sequence g path_segments =
     (case path_segments of
        [] \<Rightarrow> Inr []
      | seg_num # rest \<Rightarrow>
          (case get_seq_from_signed_seg_num g seg_num of
             Inl e \<Rightarrow> Inl e
           | Inr seg_sequence \<Rightarrow> path_sequence_loop g seg_num seg_sequence rest))"

definition find_replace_one_val_in_list :: "int list \<Rightarrow> int \<Rightarrow> int \<Rightarrow> int list" where
  "find_replace_one_val_in_list lst val replacement =
     (if val \<notin> set lst then lst else map (\<lambda>x. if x = val then replacement else x) lst)"

text \<open>
  The inner loop of \<^verbatim>\<open>find_replace_in_list\<close>: the first index \<open>i\<close> with
  \<^verbatim>\<open>lst[i] == pattern[0] and lst[i:i+len(pattern)] == pattern\<close>, for the pattern
  \<open>p0 # ps\<close>.
\<close>

fun first_match :: "int list \<Rightarrow> int \<Rightarrow> int list \<Rightarrow> nat option" where
  "first_match [] p0 ps = None"
| "first_match (x # xs) p0 ps =
     (if x = p0 \<and> take (Suc (length ps)) (x # xs) = p0 # ps then Some 0
      else map_option Suc (first_match xs p0 ps))"

text \<open>
  The outer loop runs until a pass makes no replacement. It need not end (a replacement
  that holds the pattern is found again for ever); not returning is the value \<open>None\<close>.
\<close>

partial_function (option) find_replace_loop ::
  "int list \<Rightarrow> int \<Rightarrow> int list \<Rightarrow> int list \<Rightarrow> int list option" where
  "find_replace_loop lst p0 ps replacement =
     (case first_match lst p0 ps of
        None \<Rightarrow> Some lst
      | Some i \<Rightarrow>
          find_replace_loop (take i lst @ replacement @ drop (i + Suc (length ps)) lst)
            p0 ps replacement)"

text \<open>With an empty pattern, \<^verbatim>\<open>pattern[0]\<close> raises as soon as the list has an element.\<close>

definition find_replace_in_list ::
  "int list \<Rightarrow> int list \<Rightarrow> int list \<Rightarrow> (error + int list) option" where
  "find_replace_in_list lst pattern replacement =
     (case pattern of
        [] \<Rightarrow> if lst = [] then Some (Inr lst) else Some (Inl IndexError)
      | p0 # ps \<Rightarrow> map_option Inr (find_replace_loop lst p0 ps replacement))"

text \<open>
  The loop of \<^verbatim>\<open>split_path\<close>; \<^verbatim>\<open>path.index(seg)\<close> is the length of the run before
  the first \<open>seg\<close>.
\<close>

function split_loop :: "int list \<Rightarrow> int \<Rightarrow> int list list \<Rightarrow> int list list" where
  "split_loop path seg return_paths =
     (if seg \<in> set path then
        (let seg_i = length (takeWhile (\<lambda>x. x \<noteq> seg) path)
         in split_loop (drop (seg_i + 1) path) seg (return_paths @ [take seg_i path]))
      else return_paths @ [path])"
  by pat_completeness auto
termination
  by (relation "measure (\<lambda>(path, seg, return_paths). length path)")
     (auto simp: length_pos_if_in_set intro: diff_less)

declare split_loop.simps [simp del]

definition split_path :: "int list \<Rightarrow> int \<Rightarrow> int list list" where
  "split_path path seg = filter (\<lambda>x. length x > 1) (split_loop path seg [])"

definition split_path_multiple :: "int list \<Rightarrow> int list \<Rightarrow> int list list" where
  "split_path_multiple path segs =
     fold (\<lambda>seg path_parts. concat (map (\<lambda>part. split_path part seg) path_parts)) segs [path]"

text \<open>\<^verbatim>\<open>str(n)\<close> for a natural number: its decimal digits.\<close>

definition digit_char :: "nat \<Rightarrow> char" where
  "digit_char d = ''0123456789'' ! d"

function str_nat :: "nat \<Rightarrow> string" where
  "str_nat n = (if n < 10 then [digit_char n] else str_nat (n div 10) @ [digit_char (n mod 10)])"
  by pat_completeness auto
termination
  by (relation "measure id") auto

declare str_nat.simps [simp del]

text \<open>
  The entries that the last loop of \<^verbatim>\<open>merge_simple_path\<close> writes into
  \<^verbatim>\<open>new_paths\<close> for one path, in order: under the path's own name when one piece is
  left, under \<open>name_1\<close>, \<open>name_2\<close>, \<dots> when several are, none when none is.
\<close>

definition path_entries :: "string \<Rightarrow> int list list \<Rightarrow> (string \<times> int list) list" where
  "path_entries path_name split_paths =
     (if length split_paths = 1 then [(path_name, split_paths ! 0)]
      else if length split_paths > 1 then
        map (\<lambda>(i, path). (path_name @ ''_'' @ str_nat (i + 1), path)) (enumerate 0 split_paths)
      else [])"

text \<open>
  The two replacements made in one path: the merged path by the new number, its reverse
  complement by the negated number.
\<close>

definition replace_merged ::
  "int list \<Rightarrow> int list \<Rightarrow> int \<Rightarrow> int list \<Rightarrow> (error + int list) option" where
  "replace_merged merge_path flipped_merge_path new_seg_num q =
     (case find_replace_in_list q merge_path [new_seg_num] of
        None \<Rightarrow> None
      | Some (Inl e) \<Rightarrow> Some (Inl e)
      | Some (Inr q1) \<Rightarrow> find_replace_in_list q1 flipped_merge_path [- new_seg_num])"

fun replace_merged_all ::
  "int list \<Rightarrow> int list \<Rightarrow> int \<Rightarrow> (string \<times> int list) list
     \<Rightarrow> (error + (string \<times> int list) list) option" where
  "replace_merged_all merge_path flipped_merge_path new_seg_num [] = Some (Inr [])"
| "replace_merged_all merge_path flipped_merge_path new_seg_num ((path_name, q) # rest) =
     (case replace_merged merge_path flipped_merge_path new_seg_num q of
        None \<Rightarrow> None
      | Some (Inl e) \<Rightarrow> Some (Inl e)
      | Some (Inr q') \<Rightarrow>
          (case replace_merged_all merge_path flipped_merge_path new_seg_num rest of
             None \<Rightarrow> None
           | Some (Inl e) \<Rightarrow> Some (Inl e)
           | Some (Inr rest') \<Rightarrow> Some (Inr ((path_name, q') # rest'))))"

definition build_new_paths ::
  "int list \<Rightarrow> (string \<times> int list) list \<Rightarrow> (string \<times> int list) list" where
  "build_new_paths split_on paths_copy =
     fold (\<lambda>(k, v) new_paths. AList.update k v new_paths)
          (concat (map (\<lambda>(path_name, path_segments).
                          path_entries path_name (split_path_multiple path_segments split_on))
                       paths_copy))
          []"

text \<open>\<^verbatim>\<open>[self.segments[abs(x)] for x in merge_path]\<close>.\<close>

fun path_segments_of :: "graph \<Rightarrow> int list \<Rightarrow> error + segment list" where
  "path_segments_of g [] = Inr []"
| "path_segments_of g (x # xs) =
     (case map_of (segments g) \<bar>x\<bar> of
        None \<Rightarrow> Inl KeyError
      | Some s \<Rightarrow> (case path_segments_of g xs of Inl e \<Rightarrow> Inl e | Inr r \<Rightarrow> Inr (s # r)))"

definition merge_simple_path :: "int list \<Rightarrow> graph \<Rightarrow> (error + graph) option" where
  "merge_simple_path merge_path g =
     (case merge_path of
        [] \<Rightarrow> Some (Inl IndexError)
      | start # _ \<Rightarrow>
     (let end = last merge_path in
      case path_segments_of g merge_path of
        Inl e \<Rightarrow> Some (Inl e)
      | Inr segs \<Rightarrow>
     (let depths = map depth segs;
          lengths = map (\<lambda>s. get_length s - int (overlap g)) segs;
          mean_depth = (if sum_list lengths > 0 then weighted_average_list depths lengths else 1)
      in case get_next_available_seg_number g of
        Inl e \<Rightarrow> Some (Inl e)
      | Inr new_seg_num \<Rightarrow>
     (case get_path_sequence g merge_path of
        Inl e \<Rightarrow> Some (Inl e)
      | Inr merged_forward_seq \<Rightarrow>
     (let new_seg = build_other_sequence_if_necessary
                      (Segment new_seg_num mean_depth merged_forward_seq True None None);
          paths_copy = paths g;
          outgoing_links =
            find_replace_one_val_in_list
              (find_replace_one_val_in_list (links_of (forward_links g) end) start new_seg_num)
              (- end) (- new_seg_num);
          incoming_links =
            find_replace_one_val_in_list
              (find_replace_one_val_in_list (links_of (reverse_links g) start) end new_seg_num)
              (- start) (- new_seg_num);
          g1 = remove_segments (map abs merge_path) g;
          g2 = g1\<lparr>segments := AList.update new_seg_num new_seg (segments g1)\<rparr>;
          g3 = fold (\<lambda>link. add_link new_seg_num link) outgoing_links g2;
          g4 = fold (\<lambda>link. add_link link new_seg_num) incoming_links g3;
          flipped_merge_path = map uminus (rev merge_path)
      in case replace_merged_all merge_path flipped_merge_path new_seg_num paths_copy of
           None \<Rightarrow> None
         | Some (Inl e) \<Rightarrow> Some (Inl e)
         | Some (Inr replaced) \<Rightarrow>
             Some (Inr (g4\<lparr>paths :=
                          build_new_paths (merge_path @ flipped_merge_path) replaced\<rparr>)))))))"

section \<open>Example graphs\<close>

text \<open>A segment as the GFA loader builds it: forward sequence given, reverse one derived.\<close>

definition loaded_segment :: "int \<Rightarrow> real \<Rightarrow> string \<Rightarrow> segment" where
  "loaded_segment n d s = build_other_sequence_if_necessary (Segment n d s True None None)"

text \<open>
  Scenario 5 of the specification, \<open>S = 1\<close>, \<open>A = 2\<close>, \<open>B = 3\<close>, \<open>E = 4\<close>: the chain
  \<open>S \<rightarrow> A \<rightarrow> B \<rightarrow> E\<close> and the bypass \<open>S \<rightarrow> E\<close>, as the GFA loader builds the two maps
  from the link lines \<open>1+ 2+\<close>, \<open>2+ 3+\<close>, \<open>3+ 4+\<close>, \<open>1+ 4+\<close>.
\<close>

definition scenario5 :: graph where
  "scenario5 =
     \<lparr>segments = [(1, loaded_segment 1 10 ''A''), (2, loaded_segment 2 10 ''C''),
                  (3, loaded_segment 3 10 ''G''), (4, loaded_segment 4 10 ''T'')],
      forward_links = [(1, [2, 4]), (2, [3]), (3, [4]), (-2, [-1]), (-4, [-1, -3]), (-3, [-2])],
      reverse_links = [(2, [1]), (4, [1, 3]), (3, [2]), (-1, [-2, -4]), (-3, [-4]), (-2, [-3])],
      copy_depths = [], paths = [], overlap = 0\<rparr>"

text \<open>
  The same graph when the bypass line \<open>1+ 4+\<close> comes first in the file, so that the bypass
  is the first entry of \<open>forward_links[1]\<close> and of \<open>reverse_links[4]\<close>.
\<close>

definition scenario5_bypass_first :: graph where
  "scenario5_bypass_first =
     \<lparr>segments = [(1, loaded_segment 1 10 ''A''), (2, loaded_segment 2 10 ''C''),
                  (3, loaded_segment 3 10 ''G''), (4, loaded_segment 4 10 ''T'')],
      forward_links = [(1, [4, 2]), (2, [3]), (3, [4]), (-4, [-1, -3]), (-2, [-1]), (-3, [-2])],
      reverse_links = [(4, [1, 3]), (2, [1]), (3, [2]), (-1, [-4, -2]), (-3, [-4]), (-2, [-3])],
      copy_depths = [], paths = [], overlap = 0\<rparr>"

definition bridge5 :: bridge_info where
  "bridge5 = \<lparr>bridge_kind = LongReadBridge, start_segment = 1, end_segment = 4,
      bridge_graph_path = [2, 3], bridge_sequence = ''CG'', bridge_depth = 5, quality = 9 / 10\<rparr>"

text \<open>Two segments, the link \<open>1 \<rightarrow> 2\<close> with its twin, and optionally the path \<open>[1, 2]\<close>.\<close>

definition two_segments :: "(string \<times> int list) list \<Rightarrow> graph" where
  "two_segments ps =
     \<lparr>segments = [(1, loaded_segment 1 10 ''A''), (2, loaded_segment 2 10 ''C'')],
      forward_links = [(1, [2]), (-2, [-1])],
      reverse_links = [(2, [1]), (-1, [-2])],
      copy_depths = [], paths = ps, overlap = 0\<rparr>"

text \<open>
  A segment with a hairpin link \<open>1 \<rightarrow> -1\<close>, which is its own reverse-complement twin, as
  \<^verbatim>\<open>add_link\<close> records it (and as the GFA loader does for the line \<open>1+ 1-\<close>), and the
  same graph with the link \<open>1 \<rightarrow> 2\<close> added after it.
\<close>

definition hairpin_link :: graph where
  "hairpin_link =
     add_link 1 (- 1)
       \<lparr>segments = [(1, loaded_segment 1 10 ''AT''), (2, loaded_segment 2 10 ''C'')],
        forward_links = [], reverse_links = [],
        copy_depths = [], paths = [], overlap = 0\<rparr>"

definition hairpin_then_link :: graph where
  "hairpin_then_link = add_link 1 2 hairpin_link"

definition direct_bridge :: bridge_info where
  "direct_bridge = \<lparr>bridge_kind = LongReadBridge, start_segment = 1, end_segment = 2,
      bridge_graph_path = [], bridge_sequence = ''AC'', bridge_depth = 5, quality = 9 / 10\<rparr>"

text \<open>
  Scenario 1 of the specification: segments \<open>1\<close> and \<open>2\<close> of depth 10 both lead into and
  out of segment \<open>3\<close> of depth 20; the first two are seeded as single copies.
\<close>

definition triangle :: graph where
  "triangle =
     \<lparr>segments = [(1, loaded_segment 1 10 ''A''), (2, loaded_segment 2 10 ''C''),
                  (3, loaded_segment 3 20 ''G'')],
      forward_links = [(1, [3]), (2, [3]), (3, [1, 2]), (-3, [-1, -2]), (-1, [-3]), (-2, [-3])],
      reverse_links = [(3, [1, 2]), (1, [3]), (2, [3]), (-1, [-3]), (-2, [-3]), (-3, [-1, -2])],
      copy_depths = [(1, [10]), (2, [10])], paths = [], overlap = 0\<rparr>"

text \<open>
  Scenario 2 of the specification: 50 kb at depth 50 and 500 kb at depth 100, as one
  segment each, no overlap.
\<close>

definition diploid_example :: graph where
  "diploid_example =
     \<lparr>segments = [(1, loaded_segment 1 50 (replicate 50000 CHR ''A'')),
                  (2, loaded_segment 2 100 (replicate 500000 CHR ''C''))],
      forward_links = [], reverse_links = [], copy_depths = [], paths = [], overlap = 0\<rparr>"

text \<open>
  The diploid case the seeding rule is written for: 100 bases at depth 50 beside 500 bases
  at depth 100.
\<close>

definition diploid_detected :: graph where
  "diploid_detected =
     \<lparr>segments = [(1, loaded_segment 1 50 (replicate 100 CHR ''A'')),
                  (2, loaded_segment 2 100 (replicate 500 CHR ''C''))],
      forward_links = [], reverse_links = [], copy_depths = [], paths = [], overlap = 0\<rparr>"

text \<open>
  A depth on a bound: 100 bases at the depth that the file gives as \<open>4.2\<close> beside 500
  bases at depth \<open>7.0\<close>. The float product \<^verbatim>\<open>7.0 * 0.6\<close> is the double of \<open>4.2\<close>, which
  is a little above the real number \<open>4.2\<close>.
\<close>

definition depth_on_bound :: graph where
  "depth_on_bound =
     \<lparr>segments = [(1, loaded_segment 1 (float_literal (42 / 10)) (replicate 100 CHR ''A'')),
                  (2, loaded_segment 2 7 (replicate 500 CHR ''C''))],
      forward_links = [], reverse_links = [], copy_depths = [], paths = [], overlap = 0\<rparr>"

text \<open>
  A segment of depth 0, seeded as a single copy \<open>[0.0]\<close>, leading into a segment of depth
  10 that has no copy depth yet.
\<close>

definition zero_depth_graph :: graph where
  "zero_depth_graph =
     \<lparr>segments = [(1, loaded_segment 1 0 ''A''), (2, loaded_segment 2 10 ''C'')],
      forward_links = [(1, [2]), (-2, [-1])],
      reverse_links = [(2, [1]), (-1, [-2])],
      copy_depths = [(1, [0])], paths = [], overlap = 0\<rparr>"

text \<open>
  Two segments whose ends pair up as hairpins, overlap 2: the GFA link lines \<open>1+ 1-\<close>,
  \<open>1+ 2-\<close>, \<open>2+ 2-\<close> and the twin \<open>2+ 1-\<close> that the loader adds.
\<close>

definition hairpin :: graph where
  "hairpin =
     \<lparr>segments = [(1, loaded_segment 1 10 ''GGAT''), (2, loaded_segment 2 10 ''CCAT'')],
      forward_links = [(1, [-1, -2]), (2, [-2, -1])],
      reverse_links = [(-1, [1, 2]), (-2, [1, 2])],
      copy_depths = [], paths = [], overlap = 2\<rparr>"

text \<open>
  The graph that the repair of the junction leaves, when the start segments were walked
  in the order \<open>ss\<close> and the end segments in the order \<open>es\<close>.
\<close>

definition hairpin_repaired :: "int list \<Rightarrow> int list \<Rightarrow> graph" where
  "hairpin_repaired ss es =
     \<lparr>segments = [(1, loaded_segment 1 10 ''GGAT''), (2, loaded_segment 2 10 ''CCAT''),
                  (3, \<lparr>number = 3, depth = 20, forward_sequence = ''AT'',
                       reverse_sequence = ''AT'', bridge = None, graph_path = None\<rparr>)],
      forward_links = [(1, [-3]), (2, [-3]), (3, es), (-3, map uminus ss)],
      reverse_links = [(-1, [3]), (-2, [3]), (3, ss), (-3, map uminus es)],
      copy_depths = [], paths = [], overlap = 2\<rparr>"

text \<open>
  The chain \<open>1 \<rightarrow> 2 \<rightarrow> 3\<close>, which ends where \<open>3\<close> branches to \<open>7\<close> and \<open>8\<close>, with four
  registered paths: \<open>P\<close> runs through the whole chain, \<open>Q\<close> starts at its last segment,
  \<open>R\<close> starts inside it, and \<open>S\<close> (which no link supports) names a chain segment between
  two runs of other segments.
\<close>

definition chain_with_branch :: graph where
  "chain_with_branch =
     \<lparr>segments = [(1, loaded_segment 1 10 ''A''), (2, loaded_segment 2 10 ''C''),
                  (3, loaded_segment 3 10 ''G''), (7, loaded_segment 7 10 ''T''),
                  (8, loaded_segment 8 10 ''A'')],
      forward_links = [(1, [2]), (2, [3]), (3, [7, 8]), (7, [8]),
                       (-2, [-1]), (-3, [-2]), (-7, [-3]), (-8, [-3, -7])],
      reverse_links = [(2, [1]), (3, [2]), (7, [3]), (8, [3, 7]),
                       (-1, [-2]), (-2, [-3]), (-3, [-7, -8]), (-7, [-8])],
      copy_depths = [],
      paths = [(''P'', [1, 2, 3, 7]), (''Q'', [3, 7, 8]), (''R'', [2, 3, 8]),
               (''S'', [7, 8, 2, 7, 8])],
      overlap = 0\<rparr>"

text \<open>
  The same graph with two registered paths whose entries collide: \<open>S\<close> leaves two
  pieces, and the first of them takes the name of the path \<open>S_1\<close>.
\<close>

definition chain_with_collision :: graph where
  "chain_with_collision =
     chain_with_branch\<lparr>paths := [(''S_1'', [8, 7]), (''S'', [7, 8, 2, 7, 8])]\<rparr>"

section \<open>Invariants\<close>

text \<open>
  Strand symmetry of the link table: dictionary keys are distinct, no list holds an entry
  twice, every link has its reverse-complement twin, and the reverse map mirrors the forward
  one.
\<close>

definition strand_symmetric :: "graph \<Rightarrow> bool" where
  "strand_symmetric g \<longleftrightarrow>
     distinct (map fst (forward_links g)) \<and> distinct (map fst (reverse_links g)) \<and>
     (\<forall>a. distinct (links_of (forward_links g) a)) \<and>
     (\<forall>a. distinct (links_of (reverse_links g) a)) \<and>
     (\<forall>a b. b \<in> set (links_of (forward_links g) a)
            \<longrightarrow> - a \<in> set (links_of (forward_links g) (- b))) \<and>
     (\<forall>a b. b \<in> set (links_of (forward_links g) a)
            \<longleftrightarrow> a \<in> set (links_of (reverse_links g) b))"

text \<open>A walk of a set meets every element, each once.\<close>

definition set_order :: "(int list \<Rightarrow> int list) \<Rightarrow> bool" where
  "set_order walk \<longleftrightarrow> (\<forall>xs. distinct (walk xs) \<and> set (walk xs) = set xs)"

text \<open>
  Propagation of copy depths. \<open>unassigned_keys\<close> lists the segment ids without a copy
  depth; \<open>segments_numbered\<close> says every segment is stored under its own number;
  \<open>assigns_more g g'\<close> says \<open>g'\<close> is \<open>g\<close> with more copy depths, every old one kept;
  \<open>assigns_new g g'\<close> says some segment id without a copy depth in \<open>g\<close> has one in \<open>g'\<close>.
\<close>

definition unassigned_keys :: "graph \<Rightarrow> int list" where
  "unassigned_keys g = filter (\<lambda>k. map_of (copy_depths g) k = None) (map fst (segments g))"

definition segments_numbered :: "graph \<Rightarrow> bool" where
  "segments_numbered g = list_all (\<lambda>(k, s). number s = k) (segments g)"

definition assigns_more :: "graph \<Rightarrow> graph \<Rightarrow> bool" where
  "assigns_more g g' \<longleftrightarrow>
     g' = g\<lparr>copy_depths := copy_depths g'\<rparr> \<and>
     (\<forall>k v. map_of (copy_depths g) k = Some v \<longrightarrow> map_of (copy_depths g') k = Some v)"

definition assigns_new :: "graph \<Rightarrow> graph \<Rightarrow> bool" where
  "assigns_new g g' \<longleftrightarrow>
     (\<exists>n. map_of (copy_depths g) n = None \<and> map_of (copy_depths g') n \<noteq> None \<and>
          map_of (segments g) n \<noteq> None)"

text \<open>
  The path registry after a merge, stated without the loops of the code.
  \<open>replace_all P n q\<close> reads \<open>q\<close> from left to right and puts \<open>n\<close> for every occurrence
  of the pattern \<open>P\<close>; occurrences do not overlap.
  \<open>runs S q\<close> cuts \<open>q\<close> at every id of \<open>S\<close>: the maximal runs of ids outside \<open>S\<close>, in
  order, empty runs included. \<open>kept_runs\<close> keeps the runs of at least two ids.
  \<open>named_entries\<close>: no piece gives no entry, one piece is stored under the path's own
  name, several under the name followed by \<open>_1\<close>, \<open>_2\<close>, \<dots>
  \<open>merged_path_entries P N ps\<close> lists, path by path, the entries that the merge of \<open>P\<close>
  into the new segment \<open>N\<close> makes of the registered paths \<open>ps\<close>.
\<close>

function replace_all :: "int list \<Rightarrow> int \<Rightarrow> int list \<Rightarrow> int list" where
  "replace_all P n [] = []"
| "replace_all P n (x # xs) =
     (if P \<noteq> [] \<and> prefix P (x # xs) then n # replace_all P n (drop (length P - 1) xs)
      else x # replace_all P n xs)"
  by pat_completeness auto
termination
  by (relation "measure (\<lambda>(P, n, xs). length xs)") auto

fun runs :: "int set \<Rightarrow> int list \<Rightarrow> int list list" where
  "runs S [] = [[]]"
| "runs S (x # xs) =
     (if x \<in> S then [] # runs S xs
      else (case runs S xs of [] \<Rightarrow> [[x]] | r # rs \<Rightarrow> (x # r) # rs))"

definition kept_runs :: "int set \<Rightarrow> int list \<Rightarrow> int list list" where
  "kept_runs S q = filter (\<lambda>f. 2 \<le> length f) (runs S q)"

definition named_entries :: "string \<Rightarrow> int list list \<Rightarrow> (string \<times> int list) list" where
  "named_entries name frags =
     (case frags of
        [] \<Rightarrow> []
      | [f] \<Rightarrow> [(name, f)]
      | _ \<Rightarrow> map (\<lambda>i. (name @ ''_'' @ str_nat (i + 1), frags ! i)) [0..<length frags])"

definition merged_path_entries ::
  "int list \<Rightarrow> int \<Rightarrow> (string \<times> int list) list \<Rightarrow> (string \<times> int list) list" where
  "merged_path_entries P N ps =
     concat (map (\<lambda>(name, q).
                    named_entries name
                      (kept_runs (set P \<union> uminus ` set P)
                         (replace_all (map uminus (rev P)) (- N) (replace_all P N q))))
                 ps)"

section \<open>Properties\<close>

lemmas graph_eval =
  apply_bridge_def remove_link_def link_remove_def links_of_def
  get_next_available_seg_number_def add_link_def link_insert_def Segment_def
  build_other_sequence_if_necessary_def remove_segment_depth_def loaded_segment_def
  reverse_complement_def complement_base_def complement_forward_def complement_reverse_def
  Let_def

subsection \<open>Bridge application\<close>

text \<open>
  Claim C1. \<^verbatim>\<open>apply_bridge\<close> should delete every outgoing link of \<open>start\<close> and every
  incoming link of \<open>end\<close> before it links \<open>start \<rightarrow> new \<rightarrow> end\<close>. On scenario 5 the code
  does not: each removal loop walks the list that \<^verbatim>\<open>remove_link\<close> shortens, so it
  skips every second entry. The new segment is \<open>5\<close>; afterwards \<open>E = 4\<close> still has the
  incoming link from \<open>B = 3\<close> beside the one from the new segment. With the bypass line
  first in the file it is \<open>S = 1\<close> that keeps its outgoing link to \<open>A = 2\<close>.
\<close>

theorem apply_bridge_scenario5_keeps_link:
  "map_sum id
     (\<lambda>(g', s). (number s, links_of (forward_links g') 1, links_of (reverse_links g') 4,
                 links_of (forward_links g') 3))
     (apply_bridge bridge5 1 4 (bridge_sequence bridge5) (bridge_graph_path bridge5) scenario5)
   = Inr (5, [5], [3, 5], [4]) \<and>
   map_sum id
     (\<lambda>(g', s). (number s, links_of (forward_links g') 1, links_of (reverse_links g') 4,
                 links_of (reverse_links g') 2))
     (apply_bridge bridge5 1 4 (bridge_sequence bridge5) (bridge_graph_path bridge5)
        scenario5_bypass_first)
   = Inr (5, [2, 5], [5], [1])"
  by (simp add: scenario5_def scenario5_bypass_first_def bridge5_def graph_eval)

text \<open>
  Claim C3. Every registered path should have a forward link between consecutive ids after
  a bridge is applied. \<^verbatim>\<open>apply_bridge\<close> never reads or writes the path registry: with
  the path \<open>p = [1, 2]\<close> registered and the bridge from \<open>1\<close> to \<open>2\<close> applied, the link
  \<open>1 \<rightarrow> 2\<close> is gone and the path is still there.
\<close>

theorem apply_bridge_leaves_stale_path:
  "path_linked (forward_links (two_segments [(''p'', [1, 2])])) [1, 2] \<and>
   map_sum id
     (\<lambda>(g', s). (paths g', links_of (forward_links g') 1, path_linked (forward_links g') [1, 2]))
     (apply_bridge direct_bridge 1 2 (bridge_sequence direct_bridge)
        (bridge_graph_path direct_bridge) (two_segments [(''p'', [1, 2])]))
   = Inr ([(''p'', [1, 2])], [3], False)"
  by (simp add: two_segments_def direct_bridge_def graph_eval)

subsection \<open>Dead ends\<close>

text \<open>
  Claim C5. \<^verbatim>\<open>dead_end_change_if_path_deleted\<close> should subtract the dead ends that
  the path's two ends already are. For the isolated chain \<open>1 \<rightarrow> 2\<close> both ends are dead
  ends, so the value asked for is \<open>-2\<close>; the code returns \<open>0\<close>, because it compares the
  neighbour lists with the integer \<open>0\<close>.
\<close>

theorem dead_end_change_if_path_deleted_ignores_dead_ends:
  "dead_end_change_if_path_deleted (two_segments []) [1, 2] = Inr 0 \<and>
   dead_end_change_spec (two_segments []) [1, 2] = - 2"
  by (simp add: two_segments_def dead_end_change_if_path_deleted_def dead_end_change_spec_def
      links_of_def list_equals_int_def)

subsection \<open>Removing a link\<close>

lemma link_remove_absent_key: "map_of d k = None \<Longrightarrow> link_remove k v d = Inr d"
  by (simp add: link_remove_def)

lemma link_remove_present:
  assumes "v \<in> set (links_of d k)"
  shows "\<exists>d'. link_remove k v d = Inr d'
           \<and> links_of d' = (links_of d)(k := remove1 v (links_of d k))
           \<and> map fst d' = map fst d"
proof (cases "map_of d k")
  case None
  then show ?thesis using assms by (simp add: links_of_def)
next
  case (Some l)
  then have l: "links_of d k = l" by (simp add: links_of_def)
  have k: "k \<in> fst ` set d" using Some by (metis map_of_eq_None_iff option.distinct(1))
  have "link_remove k v d = Inr (AList.update k (remove1 v l) d)"
    using assms Some l by (simp add: link_remove_def)
  moreover have "map fst (AList.update k (remove1 v l) d) = map fst d"
    using k by (simp add: update_keys)
  ultimately show ?thesis using l by (simp add: links_of_update)
qed

text \<open>
  Claim C6. \<^verbatim>\<open>remove_link\<close> should remove a link and its twin wherever they are
  recorded, and do nothing for a link that is absent. The four guards of the code test
  only that the key exists, not that its list holds the entry, and \<^verbatim>\<open>list.remove\<close>
  raises on a missing entry. So the hairpin link \<open>1 \<rightarrow> -1\<close>, which \<^verbatim>\<open>add_link\<close>
  records once under the key \<open>1\<close>, cannot be removed: the first statement deletes it and
  the second, for the twin, looks for it again under the same key. And with \<open>1 \<rightarrow> 2\<close> in
  the graph, removing the absent link \<open>1 \<rightarrow> 3\<close> raises as well. \<^verbatim>\<open>apply_bridge\<close> calls
  \<^verbatim>\<open>remove_link\<close> for every outgoing link of the start segment, so it fails on a start
  segment whose first link is a hairpin.
\<close>

theorem remove_link_raises_value_error:
  "forward_links hairpin_link = [(1, [- 1])] \<and> reverse_links hairpin_link = [(- 1, [1])] \<and>
   remove_link 1 (- 1) hairpin_link = Inl ValueError \<and>
   3 \<notin> set (links_of (forward_links (two_segments [])) 1) \<and>
   remove_link 1 3 (two_segments []) = Inl ValueError \<and>
   links_of (forward_links hairpin_then_link) 1 = [- 1, 2] \<and>
   apply_bridge direct_bridge 1 2 (bridge_sequence direct_bridge)
     (bridge_graph_path direct_bridge) hairpin_then_link = Inl ValueError"
  by (simp add: hairpin_then_link_def hairpin_link_def two_segments_def direct_bridge_def
      graph_eval)

text \<open>
  What \<^verbatim>\<open>remove_link\<close> does achieve. When none of the four keys the call consults
  exists, the call returns the graph unchanged. When the link is not its own twin and is
  recorded in all four lists, the call succeeds, deletes one occurrence from each of the
  four lists, and changes nothing else: the keys of both maps and every other list stay as
  they were.
\<close>

lemma remove_link_recorded:
  "(map_of (forward_links g) a = None \<and> map_of (forward_links g) (- b) = None \<and>
    map_of (reverse_links g) b = None \<and> map_of (reverse_links g) (- a) = None
      \<longrightarrow> remove_link a b g = Inr g) \<and>
   (b \<noteq> - a \<and> b \<in> set (links_of (forward_links g) a) \<and>
    - a \<in> set (links_of (forward_links g) (- b)) \<and>
    a \<in> set (links_of (reverse_links g) b) \<and> - b \<in> set (links_of (reverse_links g) (- a))
      \<longrightarrow> (\<exists>f r. remove_link a b g = Inr (g\<lparr>forward_links := f, reverse_links := r\<rparr>) \<and>
            links_of f = (links_of (forward_links g))
               (a := remove1 b (links_of (forward_links g) a),
                - b := remove1 (- a) (links_of (forward_links g) (- b))) \<and>
            links_of r = (links_of (reverse_links g))
               (b := remove1 a (links_of (reverse_links g) b),
                - a := remove1 (- b) (links_of (reverse_links g) (- a))) \<and>
            map fst f = map fst (forward_links g) \<and> map fst r = map fst (reverse_links g)))"
proof (intro conjI impI)
  assume "map_of (forward_links g) a = None \<and> map_of (forward_links g) (- b) = None \<and>
    map_of (reverse_links g) b = None \<and> map_of (reverse_links g) (- a) = None"
  then show "remove_link a b g = Inr g"
    by (simp add: remove_link_def link_remove_absent_key)
next
  assume h: "b \<noteq> - a \<and> b \<in> set (links_of (forward_links g) a) \<and>
    - a \<in> set (links_of (forward_links g) (- b)) \<and>
    a \<in> set (links_of (reverse_links g) b) \<and> - b \<in> set (links_of (reverse_links g) (- a))"
  then have ne: "a \<noteq> - b" "b \<noteq> - a" by auto
  from h obtain f1 where f1: "link_remove a b (forward_links g) = Inr f1"
    "links_of f1 = (links_of (forward_links g))(a := remove1 b (links_of (forward_links g) a))"
    "map fst f1 = map fst (forward_links g)"
    using link_remove_present [of b "forward_links g" a] by blast
  have "- a \<in> set (links_of f1 (- b))" using h f1(2) ne by simp
  then obtain f2 where f2: "link_remove (- b) (- a) f1 = Inr f2"
    "links_of f2 = (links_of f1)(- b := remove1 (- a) (links_of f1 (- b)))"
    "map fst f2 = map fst f1"
    using link_remove_present [of "- a" f1 "- b"] by blast
  from h obtain r1 where r1: "link_remove b a (reverse_links g) = Inr r1"
    "links_of r1 = (links_of (reverse_links g))(b := remove1 a (links_of (reverse_links g) b))"
    "map fst r1 = map fst (reverse_links g)"
    using link_remove_present [of a "reverse_links g" b] by blast
  have "- b \<in> set (links_of r1 (- a))" using h r1(2) ne by simp
  then obtain r2 where r2: "link_remove (- a) (- b) r1 = Inr r2"
    "links_of r2 = (links_of r1)(- a := remove1 (- b) (links_of r1 (- a)))"
    "map fst r2 = map fst r1"
    using link_remove_present [of "- b" r1 "- a"] by blast
  have e: "remove_link a b g = Inr (g\<lparr>forward_links := f2, reverse_links := r2\<rparr>)"
    by (simp add: remove_link_def f1 f2 r1 r2)
  have lf: "links_of f2 = (links_of (forward_links g))
               (a := remove1 b (links_of (forward_links g) a),
                - b := remove1 (- a) (links_of (forward_links g) (- b)))"
    using f1(2) f2(2) ne by (simp add: fun_upd_def)
  have lr: "links_of r2 = (links_of (reverse_links g))
               (b := remove1 a (links_of (reverse_links g) b),
                - a := remove1 (- b) (links_of (reverse_links g) (- a)))"
    using r1(2) r2(2) ne by (simp add: fun_upd_def)
  show "\<exists>f r. remove_link a b g = Inr (g\<lparr>forward_links := f, reverse_links := r\<rparr>) \<and>
            links_of f = (links_of (forward_links g))
               (a := remove1 b (links_of (forward_links g) a),
                - b := remove1 (- a) (links_of (forward_links g) (- b))) \<and>
            links_of r = (links_of (reverse_links g))
               (b := remove1 a (links_of (reverse_links g) b),
                - a := remove1 (- b) (links_of (reverse_links g) (- a))) \<and>
            map fst f = map fst (forward_links g) \<and> map fst r = map fst (reverse_links g)"
    using e lf lr f1(3) f2(3) r1(3) r2(3) by auto
qed

lemma remove_link_recorded_example:
  "remove_link 5 6 (two_segments []) = Inr (two_segments []) \<and>
   (\<exists>f r. remove_link 1 2 (two_segments [])
             = Inr ((two_segments [])\<lparr>forward_links := f, reverse_links := r\<rparr>) \<and>
          links_of f 1 = [] \<and> links_of f (- 2) = [] \<and>
          links_of r 2 = [] \<and> links_of r (- 1) = [])"
proof -
  have k: "map_of (forward_links (two_segments [])) 5 = None \<and>
           map_of (forward_links (two_segments [])) (- 6) = None \<and>
           map_of (reverse_links (two_segments [])) 6 = None \<and>
           map_of (reverse_links (two_segments [])) (- 5) = None"
    by (simp add: two_segments_def)
  have p: "(2::int) \<noteq> - 1 \<and> 2 \<in> set (links_of (forward_links (two_segments [])) 1) \<and>
           - 1 \<in> set (links_of (forward_links (two_segments [])) (- 2)) \<and>
           1 \<in> set (links_of (reverse_links (two_segments [])) 2) \<and>
           - 2 \<in> set (links_of (reverse_links (two_segments [])) (- 1))"
    by (simp add: two_segments_def links_of_def)
  have v: "links_of (forward_links (two_segments [])) 1 = [2]"
          "links_of (forward_links (two_segments [])) (- 2) = [- 1]"
          "links_of (reverse_links (two_segments [])) 2 = [1]"
          "links_of (reverse_links (two_segments [])) (- 1) = [- 2]"
    by (simp_all add: two_segments_def links_of_def)
  from remove_link_recorded [of "two_segments []" 5 6] k
  have n: "remove_link 5 6 (two_segments []) = Inr (two_segments [])" by blast
  from remove_link_recorded [of "two_segments []" 1 2] p
  obtain f r where fr:
    "remove_link 1 2 (two_segments [])
       = Inr ((two_segments [])\<lparr>forward_links := f, reverse_links := r\<rparr>)"
    "links_of f = (links_of (forward_links (two_segments [])))
               (1 := remove1 2 (links_of (forward_links (two_segments [])) 1),
                - 2 := remove1 (- 1) (links_of (forward_links (two_segments [])) (- 2)))"
    "links_of r = (links_of (reverse_links (two_segments [])))
               (2 := remove1 1 (links_of (reverse_links (two_segments [])) 2),
                - 1 := remove1 (- 2) (links_of (reverse_links (two_segments [])) (- 1)))"
    by blast
  have "links_of f 1 = [] \<and> links_of f (- 2) = [] \<and> links_of r 2 = [] \<and> links_of r (- 1) = []"
    by (simp add: fr(2,3) v)
  then show ?thesis using n fr(1) by blast
qed

subsection \<open>Positive links\<close>

lemma is_link_positive_iff:
  "a \<noteq> 0 \<Longrightarrow> b \<noteq> 0 \<Longrightarrow>
   is_link_positive a b
     \<longleftrightarrow> \<not> (a < 0 \<and> b < 0) \<and> ((a > 0 \<and> b > 0) \<or> a = - b \<or> \<bar>a\<bar> > \<bar>b\<bar>)"
  by (auto simp: is_link_positive_def)

lemma is_link_positive_twin:
  "a \<noteq> 0 \<Longrightarrow> b \<noteq> 0 \<Longrightarrow> a \<noteq> - b
     \<Longrightarrow> is_link_positive a b \<noteq> is_link_positive (- b) (- a)"
  by (auto simp: is_link_positive_def)

lemma is_link_positive_self_twin: "a \<noteq> 0 \<Longrightarrow> is_link_positive a (- a)"
  by (auto simp: is_link_positive_def)

lemma count_emitted:
  "distinct (map fst d) \<Longrightarrow>
   length (filter (\<lambda>p. p = (a, b))
             (concat (map (\<lambda>(s, es). map (Pair s) (filter (P s) es)) d))) =
   (if P a b then length (filter (\<lambda>x. x = b) (links_of d a)) else 0)"
proof (induction d)
  case Nil
  then show ?case by (simp add: links_of_def)
next
  case (Cons e d)
  obtain k es where e: "e = (k, es)" by (cases e)
  have k: "k \<notin> fst ` set d" and dd: "distinct (map fst d)" using Cons.prems e by auto
  have h: "length (filter (\<lambda>p. p = (a, b)) (map (Pair k) (filter (P k) es))) =
     (if k = a \<and> P a b then length (filter (\<lambda>x. x = b) es) else 0)"
    by (induction es) auto
  show ?case
  proof (cases "k = a")
    case True
    then have "map_of d a = None" using k by (simp add: map_of_eq_None_iff)
    then have "links_of d a = []" by (simp add: links_of_def)
    then show ?thesis using Cons.IH [OF dd] e True h by (simp add: links_of_def)
  next
    case False
    then show ?thesis using Cons.IH [OF dd] e h by (simp add: links_of_def)
  qed
qed

lemma distinct_count_one:
  "distinct xs \<Longrightarrow> x \<in> set xs \<Longrightarrow> length (filter (\<lambda>y. y = x) xs) = 1"
  by (induction xs) (auto simp: filter_empty_conv)

lemma filter_either:
  "p \<noteq> q \<Longrightarrow> length (filter (\<lambda>x. x = p \<or> x = q) xs) =
     length (filter (\<lambda>x. x = p) xs) + length (filter (\<lambda>x. x = q) xs)"
  by (induction xs) auto

lemma gfa_one_representative:
  assumes "strand_symmetric g" and "a \<noteq> 0" and "b \<noteq> 0"
    and "b \<in> set (links_of (forward_links g) a)"
  shows "length (filter (\<lambda>p. p = (a, b) \<or> p = (- b, - a)) (gfa_link_pairs g)) = 1"
proof -
  have dk: "distinct (map fst (forward_links g))"
    using assms(1) by (simp add: strand_symmetric_def)
  have d1: "distinct (links_of (forward_links g) a)"
           "distinct (links_of (forward_links g) (- b))"
    using assms(1) by (simp_all add: strand_symmetric_def)
  have tw: "- a \<in> set (links_of (forward_links g) (- b))"
    using assms(1,4) unfolding strand_symmetric_def by blast
  have c1: "length (filter (\<lambda>p. p = (a, b)) (gfa_link_pairs g))
              = (if is_link_positive a b then 1 else 0)"
    unfolding gfa_link_pairs_def
    using count_emitted [OF dk, of a b is_link_positive] distinct_count_one [OF d1(1) assms(4)]
    by simp
  have c2: "length (filter (\<lambda>p. p = (- b, - a)) (gfa_link_pairs g))
              = (if is_link_positive (- b) (- a) then 1 else 0)"
    unfolding gfa_link_pairs_def
    using count_emitted [OF dk, of "- b" "- a" is_link_positive] distinct_count_one [OF d1(2) tw]
    by simp
  show ?thesis
  proof (cases "a = - b")
    case True
    then have "(\<lambda>p. p = (a, b) \<or> p = (- b, - a)) = (\<lambda>p. p = (a, b))" by auto
    then show ?thesis using c1 True is_link_positive_self_twin [of a] assms(2) by simp
  next
    case False
    then have ne: "(a, b) \<noteq> (- b, - a)" by auto
    show ?thesis
      using filter_either [OF ne] c1 c2 is_link_positive_twin [OF assms(2,3) False] by auto
  qed
qed

text \<open>
  Claim C10. For nonzero signed ids, \<^verbatim>\<open>is_link_positive\<close> holds exactly when the two
  ids are not both negative and they are both positive, or \<open>a = -b\<close>, or \<open>|a| > |b|\<close>; a
  link of two negative ids is never positive; of a link and its distinct twin exactly one
  is positive; and in a strand-symmetric graph the link lines of the GFA output name
  exactly one of \<open>a \<rightarrow> b\<close> and \<open>-b \<rightarrow> -a\<close>, once (a self-twin link is named once).
\<close>

theorem is_link_positive_one_per_pair:
  assumes "a \<noteq> 0" and "b \<noteq> 0"
  shows "(is_link_positive a b
            \<longleftrightarrow> \<not> (a < 0 \<and> b < 0) \<and> ((a > 0 \<and> b > 0) \<or> a = - b \<or> \<bar>a\<bar> > \<bar>b\<bar>)) \<and>
         (a < 0 \<and> b < 0 \<longrightarrow> \<not> is_link_positive a b) \<and>
         (a \<noteq> - b \<longrightarrow> is_link_positive a b \<noteq> is_link_positive (- b) (- a)) \<and>
         (strand_symmetric g \<and> b \<in> set (links_of (forward_links g) a)
            \<longrightarrow> length (filter (\<lambda>p. p = (a, b) \<or> p = (- b, - a)) (gfa_link_pairs g)) = 1)"
  using is_link_positive_iff [OF assms] is_link_positive_twin [OF assms]
    gfa_one_representative [of g a b] assms
  by (auto simp: is_link_positive_def)

lemma two_segments_symmetric: "strand_symmetric (two_segments ps)"
  by (auto simp: strand_symmetric_def two_segments_def links_of_def split: if_splits)

theorem is_link_positive_one_per_pair_witness:
  "strand_symmetric (two_segments []) \<and> 2 \<in> set (links_of (forward_links (two_segments [])) 1) \<and>
   is_link_positive 1 2 \<and> \<not> is_link_positive (- 2) (- 1) \<and>
   length (filter (\<lambda>p. p = (1, 2) \<or> p = (- 2, - 1)) (gfa_link_pairs (two_segments []))) = 1"
proof -
  have m: "2 \<in> set (links_of (forward_links (two_segments [])) 1)"
    by (simp add: two_segments_def links_of_def)
  have "length (filter (\<lambda>p. p = (1, 2) \<or> p = (- 2, - 1)) (gfa_link_pairs (two_segments []))) = 1"
    using is_link_positive_one_per_pair [of 1 2 "two_segments []"] two_segments_symmetric m
    by simp
  then show ?thesis
    using two_segments_symmetric m by (simp add: is_link_positive_def)
qed

subsection \<open>Scaling copy depths\<close>

text \<open>
  Claim C4. When the source copy depths sum to zero, the error should count as infinite and
  the round should finish without an assignment. The code divides the target depth by the
  sum before it ever computes the error, so \<^verbatim>\<open>scale_copy_depths\<close> raises
  \<^verbatim>\<open>ZeroDivisionError\<close>, and so does the merge round that calls it.
\<close>

theorem scale_copy_depths_zero_sum_raises:
  "scale_copy_depths 10 [0] = Inl ZeroDivisionError \<and>
   merge_copy_depths (2 / 10) zero_depth_graph = Inl ZeroDivisionError"
  by (simp add: scale_copy_depths_def merge_copy_depths_def zero_depth_graph_def
      get_segments_without_copies_def loaded_segment_def Segment_def
      build_other_sequence_if_necessary_def merge_candidate_def get_exclusive_inputs_def
      get_exclusive_outputs_def lead_exclusively_to_def lead_exclusively_from_def
      all_have_copy_depths_def scale_copy_depths_from_source_segments_def Let_def)

subsection \<open>Propagation of copy depths\<close>

lemma assigns_more_refl: "assigns_more g g"
  by (simp add: assigns_more_def)

lemma assigns_more_trans: "assigns_more g g1 \<Longrightarrow> assigns_more g1 g2 \<Longrightarrow> assigns_more g g2"
  unfolding assigns_more_def
  by (metis (no_types, lifting) graph.surjective graph.update_convs(4))

lemma assigns_more_update:
  "map_of (copy_depths g) n = None \<Longrightarrow>
   assigns_more g (g\<lparr>copy_depths := AList.update n ds (copy_depths g)\<rparr>)"
  by (auto simp: assigns_more_def update_conv')

lemma assigns_new_update:
  "map_of (copy_depths g) n = None \<Longrightarrow> map_of (segments g) n \<noteq> None \<Longrightarrow>
   assigns_new g (g\<lparr>copy_depths := AList.update n ds (copy_depths g)\<rparr>)"
  unfolding assigns_new_def by (rule exI [of _ n]) (simp add: update_conv')

lemma assigns_new_trans1:
  "assigns_new g g1 \<Longrightarrow> assigns_more g1 g2 \<Longrightarrow> assigns_new g g2"
  unfolding assigns_new_def assigns_more_def by (metis option.exhaust)

lemma assigns_new_trans2:
  "assigns_more g g1 \<Longrightarrow> assigns_new g1 g2 \<Longrightarrow> assigns_new g g2"
  unfolding assigns_new_def assigns_more_def
  by (metis (no_types, lifting) graph.select_convs(1) graph.surjective graph.update_convs(4) option.exhaust)

lemma filter_length_mono:
  "(\<And>x. x \<in> set xs \<Longrightarrow> Q x \<Longrightarrow> P x) \<Longrightarrow> length (filter Q xs) \<le> length (filter P xs)"
  by (induction xs) auto

lemma filter_length_less:
  "(\<And>x. x \<in> set xs \<Longrightarrow> Q x \<Longrightarrow> P x) \<Longrightarrow> y \<in> set xs \<Longrightarrow> P y \<Longrightarrow> \<not> Q y
     \<Longrightarrow> length (filter Q xs) < length (filter P xs)"
proof (induction xs)
  case Nil
  then show ?case by simp
next
  case (Cons x xs)
  have le: "length (filter Q xs) \<le> length (filter P xs)"
    using Cons.prems(1) by (intro filter_length_mono) auto
  show ?case
  proof (cases "y = x")
    case True
    then show ?thesis using Cons.prems le by auto
  next
    case False
    then have "length (filter Q xs) < length (filter P xs)"
      using Cons by auto
    then show ?thesis using Cons.prems(1) [of x] by auto
  qed
qed

lemma unassigned_le:
  assumes "assigns_more g g'"
  shows "length (unassigned_keys g') \<le> length (unassigned_keys g)"
proof -
  have s: "segments g' = segments g" using assms unfolding assigns_more_def
    by (metis graph.select_convs(1) graph.surjective graph.update_convs(4))
  show ?thesis unfolding unassigned_keys_def s
    using assms unfolding assigns_more_def
    by (intro filter_length_mono) (metis option.exhaust)
qed

lemma unassigned_less:
  assumes "assigns_more g g'" and "assigns_new g g'"
  shows "length (unassigned_keys g') < length (unassigned_keys g)"
proof -
  have s: "segments g' = segments g" using assms(1) unfolding assigns_more_def
    by (metis graph.select_convs(1) graph.surjective graph.update_convs(4))
  from assms(2) obtain n where n: "map_of (copy_depths g) n = None"
    "map_of (copy_depths g') n \<noteq> None" "map_of (segments g) n \<noteq> None"
    unfolding assigns_new_def by blast
  have m: "n \<in> set (map fst (segments g))" using n(3) by (simp add: map_of_eq_None_iff)
  show ?thesis unfolding unassigned_keys_def s
  proof (rule filter_length_less [OF _ m])
    fix x assume "map_of (copy_depths g') x = None"
    then show "map_of (copy_depths g) x = None"
      using assms(1) unfolding assigns_more_def by (metis option.exhaust)
  qed (use n in auto)
qed

lemma without_copies_length:
  "segments_numbered g \<Longrightarrow>
   length (get_segments_without_copies g) = length (unassigned_keys g)"
proof -
  have "list_all (\<lambda>(k, s). number s = k) segs \<Longrightarrow>
        length (filter (\<lambda>x. map_of cd (number x) = None) (map snd segs))
          = length (filter (\<lambda>k. map_of cd k = None) (map fst segs))" for segs :: "(int \<times> segment) list" and cd :: "(int \<times> real list) list"
    by (induction segs) auto
  then show "segments_numbered g \<Longrightarrow> ?thesis"
    by (simp add: segments_numbered_def get_segments_without_copies_def unassigned_keys_def)
qed


lemma merge_candidate_inv:
  assumes "merge_candidate g num sources st = Inr st'"
    and "map_of (copy_depths g) num = None"
    and "case fst st of None \<Rightarrow> True
         | Some n \<Rightarrow> map_of (copy_depths g) n = None \<and> map_of (segments g) n \<noteq> None"
  shows "case fst st' of None \<Rightarrow> True
         | Some n \<Rightarrow> map_of (copy_depths g) n = None \<and> map_of (segments g) n \<noteq> None"
  using assms
  by (auto simp: merge_candidate_def scale_copy_depths_from_source_segments_def
           split: if_splits sum.splits option.splits prod.splits)

lemma merge_scan_inv:
  assumes "merge_scan g segs st = Inr st'"
    and "\<forall>s \<in> set segs. map_of (copy_depths g) (number s) = None"
    and "case fst st of None \<Rightarrow> True
         | Some n \<Rightarrow> map_of (copy_depths g) n = None \<and> map_of (segments g) n \<noteq> None"
  shows "case fst st' of None \<Rightarrow> True
         | Some n \<Rightarrow> map_of (copy_depths g) n = None \<and> map_of (segments g) n \<noteq> None"
  using assms
proof (induction segs arbitrary: st)
  case Nil
  then show ?case by simp
next
  case (Cons seg rest)
  from Cons.prems(1) obtain st1 st2 where
    s1: "merge_candidate g (number seg) (get_exclusive_inputs g (number seg)) st = Inr st1" and
    s2: "merge_candidate g (number seg) (get_exclusive_outputs g (number seg)) st1 = Inr st2" and
    s3: "merge_scan g rest st2 = Inr st'"
    by (auto simp: Let_def split: sum.splits)
  have u: "map_of (copy_depths g) (number seg) = None" using Cons.prems(2) by simp
  have i1: "case fst st1 of None \<Rightarrow> True
         | Some n \<Rightarrow> map_of (copy_depths g) n = None \<and> map_of (segments g) n \<noteq> None"
    using merge_candidate_inv [OF s1 u Cons.prems(3)] .
  have i2: "case fst st2 of None \<Rightarrow> True
         | Some n \<Rightarrow> map_of (copy_depths g) n = None \<and> map_of (segments g) n \<noteq> None"
    using merge_candidate_inv [OF s2 u i1] .
  show ?case using Cons.IH [OF s3 _ i2] Cons.prems(2) by simp
qed

lemma merge_copy_depths_round:
  assumes "merge_copy_depths t g = Inr (g', ch)"
  shows "assigns_more g g' \<and> (\<not> ch \<longrightarrow> g' = g) \<and> (ch \<longrightarrow> assigns_new g g')"
proof (cases "get_segments_without_copies g = []")
  case True
  then show ?thesis using assms by (simp add: merge_copy_depths_def assigns_more_refl)
next
  case False
  from False assms obtain bn bd le where
    sc: "merge_scan g (get_segments_without_copies g) (None, [], PInf) = Inr (bn, bd, le)"
    by (auto simp: merge_copy_depths_def Let_def split: sum.splits)
  have un: "\<forall>s \<in> set (get_segments_without_copies g). map_of (copy_depths g) (number s) = None"
    by (simp add: get_segments_without_copies_def)
  have inv: "case bn of None \<Rightarrow> True
         | Some n \<Rightarrow> map_of (copy_depths g) n = None \<and> map_of (segments g) n \<noteq> None"
    using merge_scan_inv [OF sc un] by simp
  show ?thesis
  proof (cases "\<exists>n. bn = Some n \<and> n \<noteq> 0 \<and> xless le (Fin t)")
    case True
    then obtain n where n: "bn = Some n" "n \<noteq> 0" "xless le (Fin t)" by blast
    then have r: "g' = g\<lparr>copy_depths := AList.update n bd (copy_depths g)\<rparr>" "ch"
      using assms False sc by (auto simp: merge_copy_depths_def Let_def)
    have k: "map_of (copy_depths g) n = None" "map_of (segments g) n \<noteq> None"
      using inv n(1) by auto
    show ?thesis using r assigns_more_update [OF k(1)] assigns_new_update [OF k] by simp
  next
    case F2: False
    then have "g' = g" "\<not> ch"
      using assms False sc by (auto simp: merge_copy_depths_def Let_def split: option.splits if_splits)
    then show ?thesis by (simp add: assigns_more_refl)
  qed
qed

lemma assign_copy_depths_round:
  assumes "assign_copy_depths_where_needed g nums nd m success = Inr (g', s')"
  shows "assigns_more g g' \<and> (\<not> s' \<longrightarrow> g' = g \<and> \<not> success)
         \<and> (s' \<longrightarrow> success \<or> assigns_new g g')"
  using assms
proof (induction g nums nd m success rule: assign_copy_depths_where_needed.induct)
  case (1 g new_depths error_margin success)
  then show ?case by (simp add: assigns_more_refl)
next
  case (2 g num nums new_depths error_margin success)
  show ?case
  proof (cases "map_of (copy_depths g) num = None")
    case False
    then obtain y where y: "map_of (copy_depths g) num = Some y" by auto
    have "assign_copy_depths_where_needed g nums (tl new_depths) error_margin success
                = Inr (g', s')"
      using "2.prems" y by simp
    then show ?thesis using "2.IH"(3) [OF False] by simp
  next
    case True
    from True "2.prems" obtain seg d ds ncd err where
      h: "map_of (segments g) num = Some seg" "new_depths = d # ds"
         "scale_copy_depths (depth seg) d = Inr (ncd, err)"
      by (auto split: option.splits list.splits sum.splits)
    show ?thesis
    proof (cases "xle err (Fin error_margin)")
      case T2: True
      let ?g1 = "g\<lparr>copy_depths := AList.update num ncd (copy_depths g)\<rparr>"
      have r: "assign_copy_depths_where_needed ?g1 nums ds error_margin True = Inr (g', s')"
        using "2.prems" True h T2 by simp
      have ih: "assigns_more ?g1 g' \<and> (\<not> s' \<longrightarrow> g' = ?g1 \<and> \<not> True)
         \<and> (s' \<longrightarrow> True \<or> assigns_new ?g1 g')"
        using "2.IH"(1) [OF True h(1) h(2) h(3) refl T2 r] .
      have a1: "assigns_more g ?g1" using assigns_more_update [OF True] .
      have a2: "assigns_new g ?g1" using assigns_new_update [OF True] h(1) by simp
      have "assigns_more g g'" using a1 ih assigns_more_trans by blast
      moreover have "assigns_new g g'" using a2 ih assigns_new_trans1 by blast
      moreover have "s'" using ih by auto
      ultimately show ?thesis by simp
    next
      case F2: False
      have r: "assign_copy_depths_where_needed g nums ds error_margin success = Inr (g', s')"
        using "2.prems" True h F2 by simp
      show ?thesis using "2.IH"(2) [OF True h(1) h(2) h(3) refl F2 r] .
    qed
  qed
qed


lemma redistribute_scan_round:
  assumes "redistribute_scan t g segs = Inr (g', ch)"
  shows "assigns_more g g' \<and> (\<not> ch \<longrightarrow> g' = g) \<and> (ch \<longrightarrow> assigns_new g g')"
  using assms
proof (induction segs arbitrary: g)
  case Nil
  then show ?case by (simp add: assigns_more_refl)
next
  case (Cons seg rest)
  have skip: "redistribute_scan t g rest = Inr (g', ch) \<Longrightarrow> ?case"
    using Cons.IH by blast
  have assigned: "?case"
    if a: "assign_copy_depths_where_needed g connections arr t False = Inr (g1, success)"
      and r: "if success then g' = g1 \<and> ch else redistribute_scan t g1 rest = Inr (g', ch)"
    for connections arr g1 success
  proof (cases success)
    case True
    then show ?thesis using assign_copy_depths_round [OF a] r by auto
  next
    case False
    then have "g1 = g" using assign_copy_depths_round [OF a] by auto
    then show ?thesis using r False skip by simp
  qed
  show ?case
    using Cons.prems skip assigned
    by (simp add: Let_def split: option.splits if_splits sum.splits prod.splits)
qed

lemma redistribute_copy_depths_round:
  assumes "redistribute_copy_depths t g = Inr (g', ch)"
  shows "assigns_more g g' \<and> (\<not> ch \<longrightarrow> g' = g) \<and> (ch \<longrightarrow> assigns_new g g')"
  using assms redistribute_scan_round [of t g _ g' ch]
  by (auto simp: redistribute_copy_depths_def Let_def assigns_more_refl split: if_splits)

lemma merge_until_stable_total:
  "\<exists>r. merge_until_stable t g = Some r \<and> (\<forall>g'. r = Inr g' \<longrightarrow> assigns_more g g')"
proof (induction "length (unassigned_keys g)" arbitrary: g rule: less_induct)
  case less
  show ?case
  proof (cases "merge_copy_depths t g")
    case (Inl e)
    then show ?thesis by (subst merge_until_stable.simps) simp_all
  next
    case (Inr p)
    obtain g1 ch where p: "p = (g1, ch)" by (cases p)
    note rd = merge_copy_depths_round [OF Inr [unfolded p]]
    show ?thesis
    proof (cases ch)
      case True
      then have "length (unassigned_keys g1) < length (unassigned_keys g)"
        using rd unassigned_less by blast
      from less [OF this] obtain r where
        r: "merge_until_stable t g1 = Some r" "\<forall>g'. r = Inr g' \<longrightarrow> assigns_more g1 g'"
        by blast
      have "merge_until_stable t g = Some r"
        using Inr p True r(1) by (subst merge_until_stable.simps) simp_all
      then show ?thesis using r(2) rd assigns_more_trans by blast
    next
      case False
      then have "merge_until_stable t g = Some (Inr g1)"
        using Inr p by (subst merge_until_stable.simps) simp_all
      then show ?thesis using rd by simp
    qed
  qed
qed

lemma determine_copy_depth_part_2_total:
  "\<exists>r. determine_copy_depth_part_2 t g = Some r \<and> (\<forall>g'. r = Inr g' \<longrightarrow> assigns_more g g')"
proof (induction "length (unassigned_keys g)" arbitrary: g rule: less_induct)
  case less
  obtain r1 where r1: "merge_until_stable t g = Some r1"
    "\<forall>g'. r1 = Inr g' \<longrightarrow> assigns_more g g'"
    using merge_until_stable_total by blast
  show ?case
  proof (cases r1)
    case (Inl e)
    then show ?thesis using r1(1) by (subst determine_copy_depth_part_2.simps) simp_all
  next
    case (Inr g1)
    then have m1: "assigns_more g g1" using r1(2) by simp
    show ?thesis
    proof (cases "redistribute_copy_depths t g1")
      case (Inl e)
      then show ?thesis
        using r1(1) \<open>r1 = Inr g1\<close> by (subst determine_copy_depth_part_2.simps) simp_all
    next
      case R: (Inr p)
      obtain g2 ch where p: "p = (g2, ch)" by (cases p)
      note rd = redistribute_copy_depths_round [OF R [unfolded p]]
      have m2: "assigns_more g g2" using m1 rd assigns_more_trans by blast
      show ?thesis
      proof (cases ch)
        case True
        then have "length (unassigned_keys g2) < length (unassigned_keys g1)"
          using rd unassigned_less by blast
        then have "length (unassigned_keys g2) < length (unassigned_keys g)"
          using unassigned_le [OF m1] by simp
        from less [OF this] obtain r where
          r: "determine_copy_depth_part_2 t g2 = Some r"
             "\<forall>g'. r = Inr g' \<longrightarrow> assigns_more g2 g'"
          by blast
        have "determine_copy_depth_part_2 t g = Some r"
          using r1(1) \<open>r1 = Inr g1\<close> R p True r(1)
          by (subst determine_copy_depth_part_2.simps) simp_all
        then show ?thesis using r(2) m2 assigns_more_trans by blast
      next
        case False
        then have "determine_copy_depth_part_2 t g = Some (Inr g2)"
          using r1(1) \<open>r1 = Inr g1\<close> R p
          by (subst determine_copy_depth_part_2.simps) simp_all
        then show ?thesis using m2 by simp
      qed
    qed
  qed
qed

text \<open>
  Claim C9. A round of \<^verbatim>\<open>merge_copy_depths\<close> or \<^verbatim>\<open>redistribute_copy_depths\<close>
  that returns changes nothing but the copy depths and keeps every copy depth there was;
  when it reports no change the graph is the same; when it reports a change some segment
  without a copy depth got one. So the number of segments without copy depths never grows
  and drops on every round that reports a change, and
  \<^verbatim>\<open>determine_copy_depth_part_2\<close> always returns (a graph or an exception).
\<close>

theorem copy_depth_propagation_monotone:
  "(\<exists>r. determine_copy_depth_part_2 t g = Some r) \<and>
   (\<forall>g' ch. (merge_copy_depths t g = Inr (g', ch) \<or> redistribute_copy_depths t g = Inr (g', ch))
      \<longrightarrow> assigns_more g g' \<and> (\<not> ch \<longrightarrow> g' = g) \<and> (ch \<longrightarrow> assigns_new g g') \<and>
          (segments_numbered g \<longrightarrow>
             length (get_segments_without_copies g') \<le> length (get_segments_without_copies g) \<and>
             (ch \<longrightarrow> length (get_segments_without_copies g')
                      < length (get_segments_without_copies g))))"
proof (intro conjI allI impI)
  show "\<exists>r. determine_copy_depth_part_2 t g = Some r"
    using determine_copy_depth_part_2_total [of t g] by blast
next
  fix g' ch
  assume "merge_copy_depths t g = Inr (g', ch) \<or> redistribute_copy_depths t g = Inr (g', ch)"
  then have rd: "assigns_more g g' \<and> (\<not> ch \<longrightarrow> g' = g) \<and> (ch \<longrightarrow> assigns_new g g')"
    using merge_copy_depths_round redistribute_copy_depths_round by blast
  show "assigns_more g g'" using rd by simp
  show "g' = g" if "\<not> ch" using rd that by simp
  show "assigns_new g g'" if "ch" using rd that by simp
  assume n: "segments_numbered g"
  have "segments g' = segments g" using rd unfolding assigns_more_def
    by (metis graph.select_convs(1) graph.surjective graph.update_convs(4))
  then have n': "segments_numbered g'" using n by (simp add: segments_numbered_def)
  show "length (get_segments_without_copies g') \<le> length (get_segments_without_copies g)"
    using unassigned_le rd without_copies_length [OF n] without_copies_length [OF n'] by simp
  show "length (get_segments_without_copies g') < length (get_segments_without_copies g)"
    if "ch"
    using unassigned_less rd that without_copies_length [OF n] without_copies_length [OF n']
    by simp
qed

lemma triangle_merge:
  "merge_copy_depths (2 / 10) triangle
     = Inr (triangle\<lparr>copy_depths := [(1, [10]), (2, [10]), (3, [10, 10])]\<rparr>, True)"
  by (simp add: scale_copy_depths_def merge_copy_depths_def triangle_def get_error_def
      get_segments_without_copies_def loaded_segment_def Segment_def
      build_other_sequence_if_necessary_def merge_candidate_def get_exclusive_inputs_def
      get_exclusive_outputs_def lead_exclusively_to_def lead_exclusively_from_def
      all_have_copy_depths_def scale_copy_depths_from_source_segments_def Let_def)

theorem copy_depth_propagation_monotone_witness:
  "segments_numbered triangle \<and>
   merge_copy_depths (2 / 10) triangle
     = Inr (triangle\<lparr>copy_depths := [(1, [10]), (2, [10]), (3, [10, 10])]\<rparr>, True) \<and>
   length (get_segments_without_copies
             (triangle\<lparr>copy_depths := [(1, [10]), (2, [10]), (3, [10, 10])]\<rparr>))
     < length (get_segments_without_copies triangle) \<and>
   (\<exists>r. determine_copy_depth_part_2 (2 / 10) triangle = Some r)"
proof -
  have n: "segments_numbered triangle"
    by (simp add: segments_numbered_def triangle_def loaded_segment_def Segment_def
        build_other_sequence_if_necessary_def Let_def)
  show ?thesis
    using copy_depth_propagation_monotone [of "2 / 10" triangle] triangle_merge n by blast
qed

subsection \<open>Rounding to a double\<close>

lemma bit_length_0: "bit_length 0 = 0"
  by (simp add: bit_length.simps)

lemma bit_length_pos: "n \<noteq> 0 \<Longrightarrow> bit_length n = Suc (bit_length (n div 2))"
  by (subst bit_length.simps) simp

lemma bit_length_bounds:
  "0 < n \<Longrightarrow> 2 ^ (bit_length n - 1) \<le> n \<and> n < 2 ^ bit_length n"
proof (induction n rule: bit_length.induct)
  case (1 n)
  then have n: "n \<noteq> 0" by simp
  show ?case
  proof (cases "n div 2 = 0")
    case True
    then have "n = 1" using n by (simp add: div_eq_0_iff)
    then show ?thesis by (simp add: bit_length_pos bit_length_0)
  next
    case False
    then have ih: "2 ^ (bit_length (n div 2) - 1) \<le> n div 2" "n div 2 < 2 ^ bit_length (n div 2)"
      using "1.IH" [OF n] by simp_all
    have b: "bit_length n = Suc (bit_length (n div 2))" using n by (rule bit_length_pos)
    have p: "0 < bit_length (n div 2)"
      using False by (simp add: bit_length_pos)
    have "2 ^ (bit_length n - 1) = 2 * 2 ^ (bit_length (n div 2) - 1)"
      using b p by (cases "bit_length (n div 2)") simp_all
    also have "\<dots> \<le> 2 * (n div 2)" using ih(1) by simp
    also have "\<dots> \<le> n" by simp
    finally have lo: "2 ^ (bit_length n - 1) \<le> n" .
    have "n < 2 * (n div 2) + 2" by arith
    also have "\<dots> \<le> 2 * 2 ^ bit_length (n div 2)" using ih(2) by simp
    finally have "n < 2 ^ bit_length n" using b by simp
    then show ?thesis using lo by simp
  qed
qed

lemma binade_bounds:
  assumes "0 < x"
  shows "2 powi binade x \<le> x \<and> x < 2 powi (binade x + 1)"
proof (cases "1 \<le> x")
  case True
  let ?n = "nat \<lfloor>x\<rfloor>"
  have n: "0 < ?n" using True by simp
  note b = bit_length_bounds [OF n]
  have e: "binade x = int (bit_length ?n) - 1" using True by (simp add: binade_def)
  have p: "0 < bit_length ?n" using n by (simp add: bit_length_pos)
  have "2 powi binade x = (2::real) ^ (bit_length ?n - 1)"
    using e p by (simp add: power_int_def nat_diff_distrib')
  also have "\<dots> \<le> real ?n" using b by (metis of_nat_le_iff of_nat_numeral of_nat_power)
  also have "\<dots> \<le> x" using True by simp
  finally have lo: "2 powi binade x \<le> x" .
  have "x < real ?n + 1" using True by simp
  also have "\<dots> \<le> (2::real) ^ bit_length ?n"
    using b by (metis Suc_leI of_nat_Suc of_nat_le_iff of_nat_numeral of_nat_power add.commute)
  also have "\<dots> = 2 powi (binade x + 1)" using e by simp
  finally show ?thesis using lo by simp
next
  case False
  let ?y = "1 / x"
  let ?m = "nat (\<lceil>?y\<rceil> - 1)"
  have y: "1 < ?y" using False assms by simp
  then have c2: "2 \<le> \<lceil>?y\<rceil>" by linarith
  then have m: "0 < ?m" by simp
  note b = bit_length_bounds [OF m]
  have e: "binade x = - int (bit_length ?m)" using False by (simp add: binade_def)
  have p: "0 < bit_length ?m" using m by (simp add: bit_length_pos)
  have my: "real ?m < ?y" using c2 by simp linarith
  have ym: "?y \<le> real ?m + 1" using c2 by simp linarith
  have "?y \<le> real ?m + 1" by (rule ym)
  also have "\<dots> \<le> (2::real) ^ bit_length ?m"
    using b by (metis Suc_leI of_nat_Suc of_nat_le_iff of_nat_numeral of_nat_power add.commute)
  finally have "1 / 2 ^ bit_length ?m \<le> x"
    using assms by (simp add: field_simps)
  then have lo: "2 powi binade x \<le> x" using e by (simp add: power_int_minus_divide)
  have "(2::real) ^ (bit_length ?m - 1) \<le> real ?m"
    using b by (metis of_nat_le_iff of_nat_numeral of_nat_power)
  also have "\<dots> < ?y" by (rule my)
  finally have "x < 1 / 2 ^ (bit_length ?m - 1)"
    using assms by (simp add: field_simps)
  moreover have "2 powi (binade x + 1) = 1 / (2::real) ^ (bit_length ?m - 1)"
  proof -
    have "binade x + 1 = - int (bit_length ?m - 1)" using e p by simp
    then show ?thesis by (simp only: power_int_minus_divide power_int_of_nat)
  qed
  ultimately show ?thesis using lo by simp
qed

lemma binade_le:
  assumes "0 < x" and "x < 2 powi (e + 1)"
  shows "binade x \<le> e"
proof (rule ccontr)
  assume "\<not> binade x \<le> e"
  then have "e + 1 \<le> binade x" by simp
  then have "(2::real) powi (e + 1) \<le> 2 powi binade x"
    by (simp add: power_int_increasing)
  then show False using binade_bounds [OF assms(1)] assms(2) by simp
qed

lemma binade_ge:
  assumes "0 < x" and "2 powi e \<le> x"
  shows "e \<le> binade x"
proof (rule ccontr)
  assume "\<not> e \<le> binade x"
  then have "binade x + 1 \<le> e" by simp
  then have "(2::real) powi (binade x + 1) \<le> 2 powi e"
    by (simp add: power_int_increasing)
  then show False using binade_bounds [OF assms(1)] assms(2) by simp
qed

lemma binade_mono: "0 < x \<Longrightarrow> x \<le> y \<Longrightarrow> binade x \<le> binade y"
  using binade_ge [of y "binade x"] binade_bounds [of x] by simp

lemma round_even_cases: "round_even q = \<lfloor>q\<rfloor> \<or> round_even q = \<lfloor>q\<rfloor> + 1"
  by (simp add: round_even_def Let_def)

lemma round_even_of_int: "round_even (of_int n) = n"
  by (simp add: round_even_def Let_def)

lemma round_even_error: "\<bar>of_int (round_even q) - q\<bar> \<le> 1 / 2"
  by (auto simp: round_even_def Let_def)

lemma round_even_mono:
  assumes "q \<le> q'"
  shows "round_even q \<le> round_even q'"
proof (cases "\<lfloor>q\<rfloor> = \<lfloor>q'\<rfloor>")
  case True
  have "q - of_int \<lfloor>q\<rfloor> \<le> q' - of_int \<lfloor>q'\<rfloor>" using assms True by simp
  then show ?thesis using True by (auto simp: round_even_def Let_def)
next
  case False
  have "\<lfloor>q\<rfloor> \<le> \<lfloor>q'\<rfloor>" using assms by (rule floor_mono)
  then have "\<lfloor>q\<rfloor> + 1 \<le> \<lfloor>q'\<rfloor>" using False by simp
  then show ?thesis using round_even_cases [of q] round_even_cases [of q'] by auto
qed

lemma ulp_pos: "0 < ulp x"
  by (simp add: ulp_def)

lemma nearest_double_error: "\<bar>nearest_double x - x\<bar> \<le> ulp x / 2"
proof (cases "x = 0")
  case True
  then show ?thesis using ulp_pos [of 0] by (simp add: nearest_double_def)
next
  case False
  let ?u = "ulp x"
  let ?q = "x / ?u"
  have u: "0 < ?u" by (rule ulp_pos)
  have "nearest_double x - x = (of_int (round_even ?q) - ?q) * ?u"
    using False u by (simp add: nearest_double_def field_simps)
  then have "\<bar>nearest_double x - x\<bar> = \<bar>of_int (round_even ?q) - ?q\<bar> * ?u"
    using u by (simp add: abs_mult)
  also have "\<dots> \<le> (1 / 2) * ?u"
    using round_even_error [of ?q] u by (intro mult_right_mono) simp_all
  finally show ?thesis by simp
qed

lemma ulp_le:
  assumes "0 < x" and "x < 2 powi (e + 1)" and "- 1022 \<le> e"
  shows "ulp x \<le> 2 powi (e - 52)"
proof -
  have "binade x \<le> e" using binade_le [OF assms(1,2)] .
  then have "max (binade \<bar>x\<bar>) (- 1022) - 52 \<le> e - 52" using assms(1,3) by simp
  then show ?thesis unfolding ulp_def by (simp add: power_int_increasing)
qed

lemma nearest_double_nonneg: "0 \<le> x \<Longrightarrow> 0 \<le> nearest_double x"
proof -
  assume x: "0 \<le> x"
  have "0 \<le> x / ulp x" using x ulp_pos [of x] by simp
  then have "round_even 0 \<le> round_even (x / ulp x)" by (rule round_even_mono)
  then have "0 \<le> round_even (x / ulp x)" using round_even_of_int [of 0] by simp
  then show ?thesis using ulp_pos [of x] by (simp add: nearest_double_def)
qed

lemma nearest_double_upper:
  assumes "0 < x"
  shows "nearest_double x \<le> 2 powi (max (binade x) (- 1022) + 1)"
proof -
  let ?e = "max (binade x) (- 1022)"
  have u: "ulp x = 2 powi (?e - 52)" using assms by (simp add: ulp_def)
  have "x < 2 powi (binade x + 1)" using binade_bounds [OF assms] by simp
  also have "\<dots> \<le> 2 powi (?e + 1)" by (simp add: power_int_increasing)
  finally have x: "x \<le> 2 powi (?e + 1)" by simp
  have s: "(2::real) powi (?e + 1) = 2 ^ 53 * 2 powi (?e - 52)"
  proof -
    have "?e + 1 = 53 + (?e - 52)" by simp
    then have "(2::real) powi (?e + 1) = 2 powi 53 * 2 powi (?e - 52)"
      by (metis power_int_add zero_neq_numeral)
    then show ?thesis by simp
  qed
  have "x / ulp x \<le> 2 ^ 53" using x u s by (simp add: field_simps)
  then have "round_even (x / ulp x) \<le> round_even (of_int (2 ^ 53))"
    by (intro round_even_mono) simp
  then have "round_even (x / ulp x) \<le> 2 ^ 53" by (simp only: round_even_of_int)
  then have "real_of_int (round_even (x / ulp x)) \<le> 2 ^ 53"
    by (metis of_int_le_iff of_int_numeral of_int_power)
  then have "real_of_int (round_even (x / ulp x)) * ulp x \<le> 2 ^ 53 * ulp x"
    using ulp_pos [of x] by (intro mult_right_mono) simp_all
  then show ?thesis using assms u s by (simp add: nearest_double_def)
qed

lemma nearest_double_lower:
  assumes "0 < x" and "- 1022 \<le> binade x"
  shows "2 powi binade x \<le> nearest_double x"
proof -
  let ?e = "binade x"
  have u: "ulp x = 2 powi (?e - 52)" using assms by (simp add: ulp_def max_def)
  have x: "2 powi ?e \<le> x" using binade_bounds [OF assms(1)] by simp
  have s: "(2::real) powi ?e = 2 ^ 52 * 2 powi (?e - 52)"
  proof -
    have "?e = 52 + (?e - 52)" by simp
    then have "(2::real) powi ?e = 2 powi 52 * 2 powi (?e - 52)"
      by (metis power_int_add zero_neq_numeral)
    then show ?thesis by simp
  qed
  have "2 ^ 52 \<le> x / ulp x" using x u s by (simp add: field_simps)
  then have "round_even (of_int (2 ^ 52)) \<le> round_even (x / ulp x)"
    by (intro round_even_mono) simp
  then have "2 ^ 52 \<le> round_even (x / ulp x)" by (simp only: round_even_of_int)
  then have "2 ^ 52 \<le> real_of_int (round_even (x / ulp x))"
    by (metis of_int_le_iff of_int_numeral of_int_power)
  then have "2 ^ 52 * ulp x \<le> real_of_int (round_even (x / ulp x)) * ulp x"
    using ulp_pos [of x] by (intro mult_right_mono) simp_all
  then show ?thesis using assms u s by (simp add: nearest_double_def)
qed

lemma nearest_double_mono:
  assumes "0 \<le> x" and "x \<le> y"
  shows "nearest_double x \<le> nearest_double y"
proof (cases "x = 0")
  case True
  then show ?thesis using nearest_double_nonneg [of y] assms by (simp add: nearest_double_def)
next
  case False
  then have x: "0 < x" and y: "0 < y" using assms by simp_all
  let ?ex = "max (binade x) (- 1022)"
  let ?ey = "max (binade y) (- 1022)"
  have le: "?ex \<le> ?ey" using binade_mono [OF x assms(2)] by simp
  show ?thesis
  proof (cases "?ex = ?ey")
    case True
    then have u: "ulp x = ulp y" using x y by (simp add: ulp_def)
    have "x / ulp y \<le> y / ulp y" using assms(2) ulp_pos [of y] by (simp add: divide_right_mono)
    then have "round_even (x / ulp y) \<le> round_even (y / ulp y)" by (rule round_even_mono)
    then have "real_of_int (round_even (x / ulp y)) * ulp y
                 \<le> real_of_int (round_even (y / ulp y)) * ulp y"
      using ulp_pos [of y] by (intro mult_right_mono) simp_all
    then show ?thesis using x y u by (simp add: nearest_double_def)
  next
    case False
    then have lt: "?ex + 1 \<le> ?ey" using le by simp
    then have b: "- 1022 \<le> binade y" and ey: "?ey = binade y" by (simp_all add: max_def split: if_splits)
    have "nearest_double x \<le> 2 powi (?ex + 1)" by (rule nearest_double_upper [OF x])
    also have "\<dots> \<le> 2 powi ?ey" using lt by (simp add: power_int_increasing)
    also have "\<dots> \<le> nearest_double y" using nearest_double_lower [OF y b] ey by simp
    finally show ?thesis .
  qed
qed

lemma nearest_double_half:
  assumes "nearest_double x = x" and "2 powi (- 1021) \<le> x"
  shows "nearest_double (x / 2) = x / 2"
proof -
  have x: "0 < x" using assms(2) by (smt (verit) zero_less_power_int)
  have b: "- 1021 \<le> binade x" using binade_ge [OF x assms(2)] .
  have h: "0 < x / 2" using x by simp
  have "2 powi (binade x - 1) \<le> x / 2 \<and> x / 2 < 2 powi (binade x - 1 + 1)"
  proof -
    have a: "(2::real) powi binade x = 2 powi (binade x - 1) * 2"
      by (simp add: power_int_minus_mult)
    have c: "(2::real) powi (binade x + 1) = 2 powi binade x * 2"
      by (metis power_int_add_1 zero_neq_numeral)
    have "2 powi (binade x - 1) * 2 \<le> x" using binade_bounds [OF x] a by simp
    moreover have "x < 2 powi binade x * 2" using binade_bounds [OF x] c by simp
    ultimately show ?thesis by simp
  qed
  then have bh: "binade (x / 2) = binade x - 1"
    using binade_le [OF h, of "binade x - 1"] binade_ge [OF h, of "binade x - 1"] by simp
  have "max (binade \<bar>x\<bar>) (- 1022) = binade x" using x b by simp
  then have u: "ulp x = 2 powi (binade x - 52)" unfolding ulp_def by simp
  have "\<bar>x / 2\<bar> = x / 2" using h by simp
  then have "max (binade \<bar>x / 2\<bar>) (- 1022) = binade x - 1" using b bh by simp
  then have uh: "ulp (x / 2) = 2 powi (binade x - 1 - 52)" unfolding ulp_def by simp
  have "(2::real) powi (binade x - 52) = 2 powi (binade x - 1 - 52) * 2"
  proof -
    have "binade x - 52 = (binade x - 1 - 52) + 1" by simp
    then show ?thesis by (metis power_int_add_1 zero_neq_numeral)
  qed
  then have r: "ulp x = ulp (x / 2) * 2" using u uh by simp
  then have q: "x / 2 / ulp (x / 2) = x / ulp x" by simp
  have "nearest_double (x / 2) = real_of_int (round_even (x / ulp x)) * ulp (x / 2)"
    using h q by (simp add: nearest_double_def)
  also have "\<dots> = (real_of_int (round_even (x / ulp x)) * ulp x) / 2" using r by simp
  also have "\<dots> = nearest_double x / 2" using x by (simp add: nearest_double_def)
  finally show ?thesis using assms(1) by simp
qed

subsection \<open>The single-copy depth\<close>

lemma unit_error:
  assumes "0 \<le> x" and "x \<le> 1"
  shows "\<bar>nearest_double x - x\<bar> \<le> 1 / 2 ^ 53"
proof (cases "x = 0")
  case True
  then show ?thesis by (simp add: nearest_double_def)
next
  case False
  then have x: "0 < x" using assms(1) by simp
  have "x < 2 powi (0 + 1)" using assms(2) by simp
  from ulp_le [OF x this] have "ulp x \<le> 2 powi (- 52)" by simp
  then have "ulp x / 2 \<le> 1 / 2 ^ 53" by (simp add: power_int_minus_divide)
  then show ?thesis using nearest_double_error [of x] by linarith
qed

lemma small_error:
  assumes "0 \<le> x" and "x < 1 / 8"
  shows "\<bar>nearest_double x - x\<bar> \<le> 1 / 2 ^ 57"
proof (cases "x = 0")
  case True
  then show ?thesis by (simp add: nearest_double_def)
next
  case False
  then have x: "0 < x" using assms(1) by simp
  have "x < 2 powi (- 4 + 1)" using assms(2) by (simp add: power_int_minus_divide)
  from ulp_le [OF x this] have "ulp x \<le> 2 powi (- 56)" by simp
  then have "ulp x / 2 \<le> 1 / 2 ^ 57" by (simp add: power_int_minus_divide)
  then show ?thesis using nearest_double_error [of x] by linarith
qed

lemma fraction_less:
  fixes a b t :: int
  assumes "0 \<le> a" and "0 \<le> b" and "a \<le> t" and "0 < t" and "t < 2 ^ 52"
  shows "nearest_double (real_of_int b / real_of_int t)
           < nearest_double (real_of_int a / real_of_int t) \<longleftrightarrow> b < a"
proof
  assume l: "nearest_double (real_of_int b / real_of_int t)
               < nearest_double (real_of_int a / real_of_int t)"
  show "b < a"
  proof (rule ccontr)
    assume "\<not> b < a"
    then have "real_of_int a / real_of_int t \<le> real_of_int b / real_of_int t"
      using assms(4) by (simp add: divide_right_mono)
    moreover have "0 \<le> real_of_int a / real_of_int t" using assms(1,4) by simp
    ultimately show False using nearest_double_mono l by fastforce
  qed
next
  assume ba: "b < a"
  let ?xa = "real_of_int a / real_of_int t"
  let ?xb = "real_of_int b / real_of_int t"
  have t: "0 < real_of_int t" using assms(4) by simp
  have a1: "0 \<le> ?xa" "?xa \<le> 1" using assms ba by simp_all
  have b1: "0 \<le> ?xb" "?xb \<le> 1" using assms ba by simp_all
  have "real_of_int t < 2 ^ 52" using assms(5) by (metis of_int_less_iff of_int_numeral of_int_power)
  then have tt: "1 / 2 ^ 52 < 1 / real_of_int t" using t by (simp add: field_simps)
  have "real_of_int b + 1 \<le> real_of_int a" using ba by linarith
  then have "(real_of_int b + 1) / real_of_int t \<le> ?xa"
    using t by (intro divide_right_mono) simp_all
  then have "?xb + 1 / real_of_int t \<le> ?xa" by (simp add: add_divide_distrib)
  then have "?xb + 1 / 2 ^ 52 < ?xa" using tt by linarith
  moreover have "(1::real) / 2 ^ 52 = 2 * (1 / 2 ^ 53)" by simp
  ultimately show "nearest_double ?xb < nearest_double ?xa"
    using unit_error [OF a1] unit_error [OF b1] by linarith
qed

lemma fraction_threshold:
  fixes a t :: int
  assumes "0 \<le> a" and "0 < t" and "t < 2 ^ 52"
  shows "nearest_double (1 / 10) \<le> nearest_double (real_of_int a / real_of_int t)
           \<longleftrightarrow> t \<le> 10 * a"
proof
  assume "t \<le> 10 * a"
  then have "real_of_int t \<le> 10 * real_of_int a" by linarith
  then have "1 / 10 \<le> real_of_int a / real_of_int t" using assms(2) by (simp add: field_simps)
  then show "nearest_double (1 / 10) \<le> nearest_double (real_of_int a / real_of_int t)"
    by (intro nearest_double_mono) simp_all
next
  assume l: "nearest_double (1 / 10) \<le> nearest_double (real_of_int a / real_of_int t)"
  show "t \<le> 10 * a"
  proof (rule ccontr)
    assume "\<not> t \<le> 10 * a"
    then have "10 * real_of_int a + 1 \<le> real_of_int t" by linarith
    let ?x = "real_of_int a / real_of_int t"
    have t: "0 < real_of_int t" using assms(2) by simp
    have x0: "0 \<le> ?x" using assms(1,2) by simp
    have "10 * real_of_int a + 1 \<le> real_of_int t" by fact
    then have "(10 * real_of_int a + 1) / (10 * real_of_int t) \<le> real_of_int t / (10 * real_of_int t)"
      using t by (intro divide_right_mono) simp_all
    then have xs: "?x + 1 / (10 * real_of_int t) \<le> 1 / 10"
      using t by (simp add: add_divide_distrib)
    have "0 < 1 / (10 * real_of_int t)" using t by simp
    then have x8: "?x < 1 / 8" using xs by linarith
    have "real_of_int t < 2 ^ 52"
      using assms(3) by (metis of_int_less_iff of_int_numeral of_int_power)
    then have "10 * real_of_int t < 2 ^ 56" by simp
    then have "1 / 2 ^ 56 < 1 / (10 * real_of_int t)" using t by (simp add: field_simps)
    moreover have "(1::real) / 2 ^ 56 = 2 * (1 / 2 ^ 57)" by simp
    ultimately have "?x + 1 / 2 ^ 57 < 1 / 10 - 1 / 2 ^ 57" using xs by linarith
    moreover have "\<bar>nearest_double (1 / 10) - 1 / 10\<bar> \<le> 1 / 2 ^ 57"
      by (rule small_error) simp_all
    ultimately show False using small_error [OF x0 x8] l by linarith
  qed
qed

lemma base_count_bounds:
  "0 \<le> get_base_count_in_depth_range g lo hi \<and>
   get_base_count_in_depth_range g lo hi \<le> get_total_length g"
proof -
  have "0 \<le> sum_list (map (\<lambda>(num, s). get_length s) (filter P xs)) \<and>
        sum_list (map (\<lambda>(num, s). get_length s) (filter P xs))
          \<le> sum_list (map (\<lambda>(num, s). get_length s) xs)"
    for P and xs :: "(int \<times> segment) list"
    by (induction xs) (auto simp: get_length_def)
  then show ?thesis by (simp add: get_base_count_in_depth_range_def get_total_length_def)
qed

lemma total_length_nonneg: "0 \<le> get_total_length g"
proof -
  have "0 \<le> sum_list (map (\<lambda>(num, s). get_length s) xs)" for xs :: "(int \<times> segment) list"
    by (induction xs) (auto simp: get_length_def)
  then show ?thesis by (simp add: get_total_length_def)
qed

text \<open>
  Claim C8, amended. For a graph that has bases, fewer than \<open>2 ^ 52\<close> of them, with \<open>M\<close> the
  weighted-median depth: the single-copy depth is the float \<open>M / 2\<close> when the bases of depth
  between the float products \<^verbatim>\<open>M * 0.4\<close> and \<^verbatim>\<open>M * 0.6\<close> are strictly more than
  those between \<^verbatim>\<open>M * 1.6\<close> and \<^verbatim>\<open>M * 2.4\<close> and at least 10% of all bases, and \<open>M\<close>
  otherwise. The bounds are the products as the interpreter rounds them, which can differ
  from \<open>0.4 M\<close>, \<dots> in the last bit; the two fractions are rounded quotients, and below
  \<open>2 ^ 52\<close> bases they compare as the base counts do. Halving is exact for every double \<open>M\<close>
  from \<open>2 ^ (-1021)\<close> on.
\<close>

theorem single_copy_depth_rule:
  assumes "get_total_length g \<noteq> 0" and "get_total_length g < 2 ^ 52"
  shows "single_copy_depth g =
     Inr (let M = get_median_read_depth g None;
              half = get_base_count_in_depth_range g
                       (float_times M (float_literal (4 / 10)))
                       (float_times M (float_literal (6 / 10)));
              double = get_base_count_in_depth_range g
                         (float_times M (float_literal (16 / 10)))
                         (float_times M (float_literal (24 / 10)))
          in if half > double \<and> 10 * half \<ge> get_total_length g
             then nearest_double (M / 2) else M) \<and>
     (nearest_double (get_median_read_depth g None) = get_median_read_depth g None \<and>
      2 powi (- 1021) \<le> get_median_read_depth g None
        \<longrightarrow> nearest_double (get_median_read_depth g None / 2)
              = get_median_read_depth g None / 2)"
proof -
  let ?t = "get_total_length g"
  have p: "0 < ?t" using assms(1) total_length_nonneg [of g] by simp
  have a: "nearest_double (real_of_int y / real_of_int ?t)
             < nearest_double (real_of_int x / real_of_int ?t) \<longleftrightarrow> y < x"
    if "0 \<le> x" "x \<le> ?t" "0 \<le> y" for x y
    using fraction_less [OF that(1) that(3) that(2) p assms(2)] .
  have b: "nearest_double (1 / 10) \<le> nearest_double (real_of_int x / real_of_int ?t)
             \<longleftrightarrow> ?t \<le> 10 * x"
    if "0 \<le> x" for x
    using fraction_threshold [OF that p assms(2)] .
  note c = base_count_bounds [of g]
  have "single_copy_depth g =
     Inr (let M = get_median_read_depth g None;
              half = get_base_count_in_depth_range g
                       (float_times M (float_literal (4 / 10)))
                       (float_times M (float_literal (6 / 10)));
              double = get_base_count_in_depth_range g
                         (float_times M (float_literal (16 / 10)))
                         (float_times M (float_literal (24 / 10)))
          in if half > double \<and> 10 * half \<ge> get_total_length g
             then nearest_double (M / 2) else M)"
    using assms(1) by (simp add: single_copy_depth_def Let_def float_literal_def [of "1 / 10"] a b c)
  then show ?thesis using nearest_double_half by blast
qed

lemmas float_eval =
  nearest_double_def ulp_def binade_def round_even_def to_float_def bit_length_0 bit_length_pos
  float_literal_def float_times_def float_plus_def Let_def

lemmas seed_eval =
  get_base_count_in_depth_range_def get_total_length_def get_length_def
  get_median_read_depth_def get_length_no_overlap_def loaded_segment_def Segment_def
  build_other_sequence_if_necessary_def

lemma bounds_100:
  "float_times 100 (float_literal (2 / 5)) = Finite 40"
  "float_times 100 (float_literal (3 / 5)) = Finite 60"
  "float_times 100 (float_literal (8 / 5)) = Finite 160"
  "float_times 100 (float_literal (12 / 5)) = Finite 240"
  by (simp_all add: float_eval)

lemma upper_bound_7:
  "float_times 7 (float_literal (6 / 10)) = Finite (float_literal (42 / 10)) \<and>
   7 * (6 / 10) < float_literal (42 / 10)"
  by (simp add: float_eval)

lemma diploid_median: "get_median_read_depth diploid_example None = 100"
  by (simp add: diploid_example_def seed_eval Let_def)

text \<open>
  Claim C8, as stated, fails on its own example: with 50 kb at depth 50 and 500 kb at depth
  100 the median is 100, but the bases near half the median are 50 of 550 kb, under the 10%
  the rule asks for, so the single-copy depth stays at the median.
\<close>

theorem single_copy_depth_example_is_median: "single_copy_depth diploid_example = Inr 100"
proof -
  have h: "get_base_count_in_depth_range diploid_example (Finite 40) (Finite 60) = 50000"
    by (simp add: diploid_example_def seed_eval)
  have d: "get_base_count_in_depth_range diploid_example (Finite 160) (Finite 240) = 0"
    by (simp add: diploid_example_def seed_eval)
  have t: "get_total_length diploid_example = 550000"
    by (simp add: diploid_example_def seed_eval)
  have f: "nearest_double (1 / 11) < nearest_double (1 / 10)"
    by (simp add: float_eval)
  show ?thesis
    using f by (simp add: single_copy_depth_def diploid_median bounds_100 h d t Let_def
        float_literal_def [of "1 / 10"])
qed

text \<open>
  Two instances of the rule. With 100 bases at depth 50 and 500 at depth 100, a sixth of
  the bases lies near half the median. With 100 bases at the double of \<open>4.2\<close> and 500 at
  depth 7, the upper bound \<^verbatim>\<open>7.0 * 0.6\<close> is that same double, so the 100 bases count,
  although their depth is above the real number \<open>0.6 \<times> 7\<close>.
\<close>

theorem single_copy_depth_rule_witness:
  "get_total_length diploid_detected = 600 \<and> single_copy_depth diploid_detected = Inr 50 \<and>
   get_total_length depth_on_bound = 600 \<and> single_copy_depth depth_on_bound = Inr (7 / 2) \<and>
   nearest_double 100 = 100 \<and> 2 powi (- 1021) \<le> (100 :: real) \<and> nearest_double 50 = 50"
proof -
  have t: "get_total_length diploid_detected = 600"
    by (simp add: diploid_detected_def seed_eval)
  have m: "get_median_read_depth diploid_detected None = 100"
    by (simp add: diploid_detected_def seed_eval Let_def)
  have h: "get_base_count_in_depth_range diploid_detected (Finite 40) (Finite 60) = 100"
    by (simp add: diploid_detected_def seed_eval)
  have d: "get_base_count_in_depth_range diploid_detected (Finite 160) (Finite 240) = 0"
    by (simp add: diploid_detected_def seed_eval)
  have e: "nearest_double 100 = 100 \<and> 2 powi (- 1021) \<le> (100 :: real)"
    by (simp add: float_eval)
  have "get_total_length diploid_detected \<noteq> 0" "get_total_length diploid_detected < 2 ^ 52"
    using t by simp_all
  note r = single_copy_depth_rule [OF this]
  from r e have n: "nearest_double 50 = 50" by (simp add: m)
  from r have one: "single_copy_depth diploid_detected = Inr 50"
    by (simp add: m bounds_100 h d t n Let_def)
  have t': "get_total_length depth_on_bound = 600"
    by (simp add: depth_on_bound_def seed_eval)
  have m': "get_median_read_depth depth_on_bound None = 7"
    by (simp add: depth_on_bound_def seed_eval Let_def float_eval)
  have h': "get_base_count_in_depth_range depth_on_bound
              (float_times 7 (float_literal (2 / 5))) (float_times 7 (float_literal (3 / 5)))
            = 100"
    by (simp add: depth_on_bound_def seed_eval float_eval)
  have d': "get_base_count_in_depth_range depth_on_bound
              (float_times 7 (float_literal (8 / 5))) (float_times 7 (float_literal (12 / 5)))
            = 0"
    by (simp add: depth_on_bound_def seed_eval float_eval)
  have n': "nearest_double (7 / 2) = 7 / 2" by (simp add: float_eval)
  have "get_total_length depth_on_bound \<noteq> 0" "get_total_length depth_on_bound < 2 ^ 52"
    using t' by simp_all
  from single_copy_depth_rule [OF this]
  have two: "single_copy_depth depth_on_bound = Inr (7 / 2)"
    by (simp add: m' h' d' t' n' Let_def)
  show ?thesis using t one t' two e n by simp
qed

subsection \<open>Junction repair\<close>

lemma hairpin_symmetric: "strand_symmetric hairpin"
  by (auto simp: strand_symmetric_def hairpin_def links_of_def split: if_splits)

lemmas junction_eval =
  junction_at_def links_of_def repair_junction_def get_seq_from_signed_seg_num_def
  seq_prefix_def seq_suffix_def get_next_available_seg_number_def loaded_segment_def
  Segment_def build_other_sequence_if_necessary_def reverse_complement_def complement_base_def
  complement_forward_def complement_reverse_def Let_def

lemma set_order_remdups: "set_order remdups"
  by (simp add: set_order_def)

lemma walk_length: "set_order walk \<Longrightarrow> length (walk xs) = card (set xs)"
  by (metis distinct_card set_order_def)

lemma walk_one: "set_order walk \<Longrightarrow> set xs = {a} \<Longrightarrow> walk xs = [a]"
proof -
  assume w: "set_order walk" and x: "set xs = {a}"
  have "length (walk xs) = 1" using walk_length [OF w, of xs] x by simp
  then obtain y where y: "walk xs = [y]" by (cases "walk xs") auto
  have "set (walk xs) = {a}" using w x by (simp add: set_order_def)
  then show ?thesis using y by simp
qed

lemma walk_two:
  assumes "set_order walk" and "set xs = {a, b}" and "a \<noteq> b"
  shows "walk xs = [a, b] \<or> walk xs = [b, a]"
proof -
  have "length (walk xs) = 2" using walk_length [OF assms(1), of xs] assms(2,3) by simp
  then obtain y z where y: "walk xs = [y, z]"
    by (cases "walk xs") (auto simp: length_Suc_conv)
  have "set (walk xs) = {a, b}" using assms(1,2) by (simp add: set_order_def)
  then have "{y, z} = {a, b}" using y by simp
  then show ?thesis using y by (auto simp: doubleton_eq_iff)
qed

lemma hairpin_step:
  assumes "set_order walk"
  shows "repair_first_junction walk hairpin [1, 2, -1, -2]
           = Some (Inr (hairpin_repaired (walk [1, 2, 1, 2]) (walk [-1, -2])))"
proof -
  have s: "set (walk xs) = set xs" for xs using assms by (simp add: set_order_def)
  have es: "walk [-1, -2] = [-1, -2] \<or> walk [-1, -2] = [-2, -1]"
    using walk_two [OF assms, of "[-1, -2]" "-1" "-2"] by simp
  have ss: "walk [1, 2, 1, 2] = [1, 2] \<or> walk [1, 2, 1, 2] = [2, 1]"
    using walk_two [OF assms, of "[1, 2, 1, 2]" 1 2] by auto
  from es ss show ?thesis
    by (auto simp: hairpin_def hairpin_repaired_def junction_eval s)
qed

lemma hairpin_repaired_stable:
  assumes "set_order walk"
    and "ss = [1, 2] \<or> ss = [2, 1]" and "es = [-1, -2] \<or> es = [-2, -1]"
  shows "repair_first_junction walk (hairpin_repaired ss es) [1, 2, 3, -1, -2, -3] = None"
proof -
  have w1: "walk [- 3] = [- 3]" using walk_one [OF assms(1), of "[- 3]" "- 3"] by simp
  have w2: "walk [3, 3] = [3]" using walk_one [OF assms(1), of "[3, 3]" 3] by simp
  have w3: "walk xs = [- 1, - 2] \<or> walk xs = [- 2, - 1]" if "set xs = {- 1, - 2}" for xs
    using walk_two [OF assms(1) that] by simp
  have j1: "junction_at walk (hairpin_repaired ss es) 1 = None"
    by (simp add: hairpin_repaired_def junction_at_def Let_def w1)
  have j2: "junction_at walk (hairpin_repaired ss es) 2 = None"
    by (simp add: hairpin_repaired_def junction_at_def Let_def w1)
  have j4: "junction_at walk (hairpin_repaired ss es) (- 1) = None"
    by (simp add: hairpin_repaired_def junction_at_def)
  have j5: "junction_at walk (hairpin_repaired ss es) (- 2) = None"
    by (simp add: hairpin_repaired_def junction_at_def)
  have "set es = {- 1, - 2}" using assms(3) by auto
  from w3 [OF this] have j3: "junction_at walk (hairpin_repaired ss es) 3 = None"
    by (auto simp: hairpin_repaired_def junction_at_def Let_def links_of_def w2)
  have "set (map uminus ss) = {- 1, - 2}" using assms(2) by auto
  from w3 [OF this] have j6: "junction_at walk (hairpin_repaired ss es) (- 3) = None"
    by (auto simp: hairpin_repaired_def junction_at_def Let_def links_of_def w2)
  show ?thesis by (simp add: j1 j2 j3 j4 j5 j6)
qed

lemma hairpin_repair:
  assumes "set_order walk"
  shows "repair_multi_way_junctions walk hairpin
           = Some (Inr (hairpin_repaired (walk [1, 2, 1, 2]) (walk [-1, -2])))"
proof -
  let ?r = "hairpin_repaired (walk [1, 2, 1, 2]) (walk [-1, -2])"
  have es: "walk [-1, -2] = [-1, -2] \<or> walk [-1, -2] = [-2, -1]"
    using walk_two [OF assms, of "[-1, -2]" "-1" "-2"] by simp
  have ss: "walk [1, 2, 1, 2] = [1, 2] \<or> walk [1, 2, 1, 2] = [2, 1]"
    using walk_two [OF assms, of "[1, 2, 1, 2]" 1 2] by auto
  have a: "map fst (segments hairpin) @ map (\<lambda>x. - fst x) (segments hairpin) = [1, 2, -1, -2]"
    by (simp add: hairpin_def)
  have b: "map fst (segments ?r) @ map (\<lambda>x. - fst x) (segments ?r) = [1, 2, 3, -1, -2, -3]"
    by (simp add: hairpin_repaired_def)
  have "repair_multi_way_junctions walk ?r = Some (Inr ?r)"
    by (subst repair_multi_way_junctions.simps)
       (simp only: b hairpin_repaired_stable [OF assms ss es] option.case)
  then show ?thesis
    by (subst repair_multi_way_junctions.simps)
       (simp only: a hairpin_step [OF assms] option.case sum.case)
qed

text \<open>
  Claim C2. After \<^verbatim>\<open>repair_multi_way_junctions\<close> every link should still have its
  twin, and the reverse map should mirror the forward one. On the hairpin graph, which is
  strand-symmetric, the two loops that rewire the junction write the same keys (\<open>1\<close> and
  \<open>2\<close> are start segments, and their negations are end segments), so the second loop
  overwrites what the first stored: afterwards \<open>-3 \<rightarrow> -1\<close> is a forward link but its twin
  \<open>1 \<rightarrow> 3\<close> is not, and \<open>1\<close> is listed as a predecessor of \<open>3\<close> in the reverse map. This
  is so in whatever order the interpreter walks the two sets; \<open>ss\<close> below is the order of
  the start segments \<open>1\<close> and \<open>2\<close>.
\<close>

theorem repair_hairpin_junction_breaks_symmetry:
  assumes "set_order walk"
  shows "\<exists>ss. (ss = [1, 2] \<or> ss = [2, 1]) \<and>
     map_option
       (map_sum id (\<lambda>g'. (links_of (forward_links g') (- 3), links_of (forward_links g') 1,
                           links_of (reverse_links g') 3)))
       (repair_multi_way_junctions walk hairpin)
     = Some (Inr (map uminus ss, [- 3], ss))"
proof -
  have ss: "walk [1, 2, 1, 2] = [1, 2] \<or> walk [1, 2, 1, 2] = [2, 1]"
    using walk_two [OF assms, of "[1, 2, 1, 2]" 1 2] by auto
  have "map_option
       (map_sum id (\<lambda>g'. (links_of (forward_links g') (- 3), links_of (forward_links g') 1,
                           links_of (reverse_links g') 3)))
       (repair_multi_way_junctions walk hairpin)
     = Some (Inr (map uminus (walk [1, 2, 1, 2]), [- 3], walk [1, 2, 1, 2]))"
    by (simp add: hairpin_repair [OF assms]) (simp add: hairpin_repaired_def links_of_def)
  then show ?thesis using ss by blast
qed

theorem repair_hairpin_junction_breaks_symmetry_witness:
  "set_order remdups \<and>
   map_option
     (map_sum id (\<lambda>g'. (links_of (forward_links g') (- 3), links_of (forward_links g') 1,
                         links_of (reverse_links g') 3)))
     (repair_multi_way_junctions remdups hairpin)
   = Some (Inr ([- 1, - 2], [- 3], [1, 2]))"
proof -
  have e: "map_option
     (map_sum id (\<lambda>g'. (links_of (forward_links g') (- 3), links_of (forward_links g') 1,
                         links_of (reverse_links g') 3)))
     (repair_multi_way_junctions remdups hairpin)
   = Some (Inr (map uminus (remdups [1, 2, 1, 2]), [- 3], remdups [1, 2, 1, 2]))"
    by (simp add: hairpin_repair [OF set_order_remdups])
       (simp add: hairpin_repaired_def links_of_def)
  from repair_hairpin_junction_breaks_symmetry [OF set_order_remdups] e
  show ?thesis by (auto simp: set_order_remdups)
qed

lemma hairpin_repaired_not_symmetric:
  "ss = [1, 2] \<or> ss = [2, 1] \<Longrightarrow> \<not> strand_symmetric (hairpin_repaired ss es)"
proof
  assume ss: "ss = [1, 2] \<or> ss = [2, 1]"
  assume "strand_symmetric (hairpin_repaired ss es)"
  then have "\<forall>a b. b \<in> set (links_of (forward_links (hairpin_repaired ss es)) a)
            \<longrightarrow> - a \<in> set (links_of (forward_links (hairpin_repaired ss es)) (- b))"
    unfolding strand_symmetric_def by blast
  then have "- 1 \<in> set (links_of (forward_links (hairpin_repaired ss es)) (- 3))
            \<longrightarrow> - (- 3) \<in> set (links_of (forward_links (hairpin_repaired ss es)) (- (- 1)))"
    by blast
  then show False using ss by (auto simp: hairpin_repaired_def links_of_def)
qed

subsection \<open>Paths after a merge\<close>

lemma first_match_None_iff:
  "first_match xs p0 ps = None \<longleftrightarrow> \<not> sublist (p0 # ps) xs"
proof (induction xs)
  case Nil
  then show ?case by simp
next
  case (Cons x xs)
  have pre: "prefix (p0 # ps) (x # xs) \<longleftrightarrow> x = p0 \<and> take (Suc (length ps)) (x # xs) = p0 # ps"
    by (auto simp: prefix_def append_eq_conv_conj)
       (metis append_take_drop_id)
  show ?case
    using Cons.IH pre by (auto simp: sublist_Cons_right)
qed

lemma first_match_Some:
  "first_match xs p0 ps = Some i \<Longrightarrow>
     xs = take i xs @ (p0 # ps) @ drop (i + Suc (length ps)) xs"
proof (induction xs arbitrary: i)
  case Nil
  then show ?case by simp
next
  case (Cons x xs)
  show ?case
  proof (cases "x = p0 \<and> take (Suc (length ps)) (x # xs) = p0 # ps")
    case True
    then have i: "i = 0" using Cons.prems by simp
    have "take (length ps) xs = ps" using True by simp
    then have k: "ps @ drop (length ps) xs = xs" by (metis append_take_drop_id)
    show ?thesis using True i k by simp
  next
    case False
    then obtain j where j: "first_match xs p0 ps = Some j" "i = Suc j"
      using Cons.prems by (auto split: if_splits)
    show ?thesis using Cons.IH [OF j(1)] j(2) by simp
  qed
qed

lemma count_p0_drops:
  assumes "first_match xs p0 ps = Some i" and "n \<noteq> p0"
  shows "count_list (take i xs @ [n] @ drop (i + Suc (length ps)) xs) p0 < count_list xs p0"
proof -
  have "count_list xs p0 =
        count_list (take i xs @ (p0 # ps) @ drop (i + Suc (length ps)) xs) p0"
    using first_match_Some [OF assms(1)] by simp
  then show ?thesis using assms(2) by simp
qed

lemma prefix_pattern:
  "prefix (p0 # ps) (x # xs) \<longleftrightarrow> x = p0 \<and> take (Suc (length ps)) (x # xs) = p0 # ps"
  by (auto simp: prefix_def append_eq_conv_conj) (metis append_take_drop_id)

lemma replace_all_no_match:
  "first_match xs p0 ps = None \<Longrightarrow> replace_all (p0 # ps) n xs = xs"
proof (induction xs)
  case Nil
  then show ?case by simp
next
  case (Cons x xs)
  then have a: "\<not> (x = p0 \<and> take (Suc (length ps)) (x # xs) = p0 # ps)"
    and b: "first_match xs p0 ps = None" by (auto split: if_splits)
  have "\<not> prefix (p0 # ps) (x # xs)" using a prefix_pattern [of p0 ps x xs] by blast
  then show ?case using Cons.IH [OF b] by (simp del: Cons_prefix_Cons)
qed

lemma replace_all_first_match:
  "first_match xs p0 ps = Some i \<Longrightarrow>
   replace_all (p0 # ps) n xs
     = take i xs @ n # replace_all (p0 # ps) n (drop (i + Suc (length ps)) xs)"
proof (induction xs arbitrary: i)
  case Nil
  then show ?case by simp
next
  case (Cons x xs)
  show ?case
  proof (cases "x = p0 \<and> take (Suc (length ps)) (x # xs) = p0 # ps")
    case True
    then have i: "i = 0" using Cons.prems by simp
    have "prefix (p0 # ps) (x # xs)" using True prefix_pattern [of p0 ps x xs] by blast
    then show ?thesis using i by (simp del: Cons_prefix_Cons)
  next
    case False
    then obtain j where j: "first_match xs p0 ps = Some j" "i = Suc j"
      using Cons.prems by (auto split: if_splits)
    have "\<not> prefix (p0 # ps) (x # xs)" using False prefix_pattern [of p0 ps x xs] by blast
    then show ?thesis using Cons.IH [OF j(1)] j(2) by (simp del: Cons_prefix_Cons)
  qed
qed

lemma prefix_before_fresh:
  assumes "n \<notin> set P" and "prefix P (A @ n # R)"
  shows "prefix P A"
proof -
  from assms(2) consider "prefix P A" | us where "P = A @ us" "prefix us (n # R)"
    by (auto simp: prefix_append)
  then show ?thesis
  proof cases
    case 1
    then show ?thesis .
  next
    case 2
    then show ?thesis using assms(1) by (cases us) auto
  qed
qed

lemma replace_all_after_step:
  assumes "n \<notin> set (p0 # ps)"
  shows "first_match xs p0 ps = Some i \<Longrightarrow>
   replace_all (p0 # ps) n (take i xs @ [n] @ drop (i + Suc (length ps)) xs)
     = take i xs @ n # replace_all (p0 # ps) n (drop (i + Suc (length ps)) xs)"
proof (induction xs arbitrary: i)
  case Nil
  then show ?case by simp
next
  case (Cons x xs)
  show ?case
  proof (cases "x = p0 \<and> take (Suc (length ps)) (x # xs) = p0 # ps")
    case True
    then have i: "i = 0" using Cons.prems by simp
    have "n \<noteq> p0" using assms by simp
    then show ?thesis using i by simp
  next
    case False
    then obtain j where j: "first_match xs p0 ps = Some j" "i = Suc j"
      using Cons.prems by (auto split: if_splits)
    let ?R = "drop (j + Suc (length ps)) xs"
    have np: "\<not> prefix (p0 # ps) (x # xs)" using False prefix_pattern [of p0 ps x xs] by blast
    have "\<not> prefix (p0 # ps) ((x # take j xs) @ n # ?R)"
    proof
      assume "prefix (p0 # ps) ((x # take j xs) @ n # ?R)"
      from prefix_before_fresh [OF assms this] have "prefix (p0 # ps) (x # take j xs)" .
      moreover have "prefix (x # take j xs) (x # xs)" by (simp add: take_is_prefix)
      ultimately show False using np by (meson prefix_order.order_trans)
    qed
    then have "replace_all (p0 # ps) n (x # take j xs @ [n] @ ?R)
                 = x # replace_all (p0 # ps) n (take j xs @ [n] @ ?R)"
      by (simp del: Cons_prefix_Cons)
    then show ?thesis using Cons.IH [OF j(1)] j(2) by simp
  qed
qed

lemma find_replace_loop_replace_all:
  assumes "n \<notin> set (p0 # ps)"
  shows "find_replace_loop xs p0 ps [n] = Some (replace_all (p0 # ps) n xs)"
proof (induction "count_list xs p0" arbitrary: xs rule: less_induct)
  case less
  show ?case
  proof (cases "first_match xs p0 ps")
    case None
    then show ?thesis
      by (subst find_replace_loop.simps) (simp add: replace_all_no_match)
  next
    case (Some i)
    let ?ys = "take i xs @ [n] @ drop (i + Suc (length ps)) xs"
    have "n \<noteq> p0" using assms by simp
    from less [OF count_p0_drops [OF Some this]]
    have "find_replace_loop ?ys p0 ps [n] = Some (replace_all (p0 # ps) n ?ys)" .
    moreover have "replace_all (p0 # ps) n ?ys = replace_all (p0 # ps) n xs"
      using replace_all_after_step [OF assms Some] replace_all_first_match [OF Some, of n]
      by simp
    ultimately show ?thesis using Some by (subst find_replace_loop.simps) simp
  qed
qed

lemma find_replace_in_list_replace_all:
  "P \<noteq> [] \<Longrightarrow> n \<notin> set P \<Longrightarrow> find_replace_in_list xs P [n] = Some (Inr (replace_all P n xs))"
  by (cases P) (simp_all add: find_replace_in_list_def find_replace_loop_replace_all)

subsection \<open>Splitting\<close>

lemma find_replace_loop_done:
  "first_match xs p0 ps = None \<Longrightarrow> find_replace_loop xs p0 ps r = Some xs"
  by (subst find_replace_loop.simps) simp

lemma find_replace_loop_step:
  "first_match xs p0 ps \<noteq> None \<Longrightarrow>
   find_replace_loop xs p0 ps r
     = find_replace_loop (take (the (first_match xs p0 ps)) xs @ r
                          @ drop (the (first_match xs p0 ps) + Suc (length ps)) xs) p0 ps r"
  by (subst find_replace_loop.simps) auto

lemma split_loop_stop: "seg \<notin> set path \<Longrightarrow> split_loop path seg rp = rp @ [path]"
  by (subst split_loop.simps) simp

lemma split_loop_cut:
  "seg \<in> set path \<Longrightarrow>
   split_loop path seg rp
     = split_loop (drop (length (takeWhile (\<lambda>x. x \<noteq> seg) path) + 1) path) seg
         (rp @ [take (length (takeWhile (\<lambda>x. x \<noteq> seg) path)) path])"
  by (subst split_loop.simps) (simp add: Let_def)

lemma runs_not_Nil: "runs S q \<noteq> []"
  by (induction q) (auto split: list.splits)

lemma runs_clean: "set q \<inter> S = {} \<Longrightarrow> runs S q = [q]"
  by (induction q) auto

lemma runs_cut:
  "set tw \<inter> S = {} \<Longrightarrow> s \<in> S \<Longrightarrow> runs S (tw @ s # rest) = tw # runs S rest"
  by (induction tw) auto

lemma split_loop_runs: "split_loop path seg acc = acc @ runs {seg} path"
proof (induction path seg acc rule: split_loop.induct)
  case (1 path seg return_paths)
  show ?case
  proof (cases "seg \<in> set path")
    case False
    then show ?thesis by (simp add: split_loop_stop runs_clean)
  next
    case True
    let ?tw = "takeWhile (\<lambda>x. x \<noteq> seg) path"
    let ?i = "length ?tw"
    have t: "take ?i path = ?tw" by (rule takeWhile_eq_take [symmetric])
    have c: "set ?tw \<inter> {seg} = {}" by (auto dest: set_takeWhileD)
    have d: "path = ?tw @ seg # drop (?i + 1) path"
    proof -
      have "dropWhile (\<lambda>x. x \<noteq> seg) path \<noteq> []" using True by (simp add: dropWhile_eq_Nil_conv)
      moreover have "hd (dropWhile (\<lambda>x. x \<noteq> seg) path) = seg"
        using True hd_dropWhile [of "\<lambda>x. x \<noteq> seg" path] by (auto simp: dropWhile_eq_Nil_conv)
      ultimately have "dropWhile (\<lambda>x. x \<noteq> seg) path = seg # tl (dropWhile (\<lambda>x. x \<noteq> seg) path)"
        by (metis list.collapse)
      moreover have "tl (dropWhile (\<lambda>x. x \<noteq> seg) path) = drop (?i + 1) path"
        by (simp add: dropWhile_eq_drop drop_Suc tl_drop)
      ultimately show ?thesis by (metis takeWhile_dropWhile_id)
    qed
    have "runs {seg} path = ?tw # runs {seg} (drop (?i + 1) path)"
      using runs_cut [OF c, of seg "drop (?i + 1) path"] d by simp
    then show ?thesis
      using "1.IH" [OF True refl] True t by (simp add: split_loop_cut)
  qed
qed

lemma split_path_runs: "split_path path seg = kept_runs {seg} path"
proof -
  have "(\<lambda>x :: int list. length x > 1) = (\<lambda>f. 2 \<le> length f)" by auto
  then show ?thesis by (simp add: split_path_def kept_runs_def split_loop_runs)
qed

lemma runs_insert: "concat (map (runs {s}) (runs S q)) = runs (insert s S) q"
proof (induction q)
  case Nil
  then show ?case by simp
next
  case (Cons x xs)
  obtain r rs where r: "runs S xs = r # rs" using runs_not_Nil [of S xs] by (cases "runs S xs") auto
  obtain r' rs' where r': "runs {s} r = r' # rs'"
    using runs_not_Nil [of "{s}" r] by (cases "runs {s} r") auto
  from Cons.IH r r' have ih: "runs (insert s S) xs = r' # rs' @ concat (map (runs {s}) rs)"
    by simp
  show ?case
  proof (cases "x \<in> S")
    case True
    then show ?thesis using Cons.IH by simp
  next
    case False
    then show ?thesis using r r' ih by (cases "x = s") auto
  qed
qed

lemma short_runs: "length p < 2 \<Longrightarrow> kept_runs S p = []"
proof (cases p)
  case Nil
  then show ?thesis by (simp add: kept_runs_def)
next
  case (Cons x xs)
  assume "length p < 2"
  then have "xs = []" using Cons by simp
  then show ?thesis using Cons by (simp add: kept_runs_def)
qed

lemma kept_runs_step:
  "concat (map (kept_runs {s}) (filter (\<lambda>f. 2 \<le> length f) rs))
     = filter (\<lambda>f. 2 \<le> length f) (concat (map (runs {s}) rs))"
proof (induction rs)
  case Nil
  then show ?case by simp
next
  case (Cons r rs)
  show ?case
  proof (cases "2 \<le> length r")
    case True
    then show ?thesis using Cons.IH by (simp add: kept_runs_def)
  next
    case False
    then have "kept_runs {s} r = []" by (simp add: short_runs)
    then show ?thesis using False Cons.IH by (simp add: kept_runs_def)
  qed
qed

lemma split_fold_runs:
  "fold (\<lambda>seg path_parts. concat (map (\<lambda>part. split_path part seg) path_parts))
        segs (kept_runs S q)
     = kept_runs (S \<union> set segs) q"
proof (induction segs arbitrary: S)
  case Nil
  then show ?case by simp
next
  case (Cons s segs)
  have "concat (map (\<lambda>part. split_path part s) (kept_runs S q))
          = concat (map (kept_runs {s}) (filter (\<lambda>f. 2 \<le> length f) (runs S q)))"
    by (simp add: split_path_runs kept_runs_def [of S])
  also have "\<dots> = kept_runs (insert s S) q"
    using kept_runs_step [of s "runs S q"] runs_insert [of s S q]
    by (simp add: kept_runs_def [of "insert s S"])
  finally have "concat (map (\<lambda>part. split_path part s) (kept_runs S q))
                  = kept_runs (insert s S) q" .
  then show ?case using Cons.IH [of "insert s S"] by simp
qed

lemma split_path_multiple_runs:
  assumes "segs \<noteq> []"
  shows "split_path_multiple q segs = kept_runs (set segs) q"
proof -
  obtain s rest where s: "segs = s # rest" using assms by (cases segs) auto
  have "split_path_multiple q segs
          = fold (\<lambda>seg path_parts. concat (map (\<lambda>part. split_path part seg) path_parts))
              rest (kept_runs {s} q)"
    by (simp add: split_path_multiple_def s split_path_runs)
  then show ?thesis using split_fold_runs [of rest "{s}" q] s by simp
qed

lemma runs_free: "f \<in> set (runs S q) \<Longrightarrow> set f \<inter> S = {}"
proof (induction q arbitrary: f)
  case Nil
  then show ?case by simp
next
  case (Cons x xs)
  obtain r rs where r: "runs S xs = r # rs" using runs_not_Nil [of S xs] by (cases "runs S xs") auto
  show ?case
  proof (cases "x \<in> S")
    case True
    then show ?thesis using Cons by auto
  next
    case False
    then have "f = x # r \<or> f \<in> set rs" using Cons.prems r by simp
    moreover have "set r \<inter> S = {}" using Cons.IH [of r] r by simp
    moreover have "f \<in> set rs \<Longrightarrow> set f \<inter> S = {}" using Cons.IH [of f] r by simp
    ultimately show ?thesis using False by auto
  qed
qed

lemma path_entries_named_entries: "path_entries name frags = named_entries name frags"
proof -
  have e: "map (\<lambda>(i, path). (name @ ''_'' @ str_nat (i + 1), path)) (enumerate 0 frags)
          = map (\<lambda>i. (name @ ''_'' @ str_nat (i + 1), frags ! i)) [0..<length frags]"
    by (rule nth_equalityI) (simp_all add: nth_enumerate_eq)
  show ?thesis
  proof (cases frags)
    case Nil
    then show ?thesis by (simp add: path_entries_def named_entries_def)
  next
    case (Cons f fs)
    then show ?thesis using e
      by (cases fs) (simp_all add: path_entries_def named_entries_def)
  qed
qed

lemma fold_update_map_of:
  "map_of (fold (\<lambda>(k, v) d. AList.update k v d) es acc) = map_of (rev es @ acc)"
proof (induction es arbitrary: acc)
  case Nil
  then show ?case by simp
next
  case (Cons e es)
  obtain k v where e: "e = (k, v)" by (cases e)
  have "map_of (fold (\<lambda>(k, v) d. AList.update k v d) (e # es) acc)
          = map_of (rev es @ AList.update k v acc)"
    using Cons.IH [of "AList.update k v acc"] e by simp
  also have "\<dots> = map_of (rev (e # es) @ acc)"
    by (simp add: e update_conv' map_add_def fun_eq_iff split: option.splits)
  finally show ?case .
qed

lemma fold_update_distinct:
  "distinct (map fst acc @ map fst es) \<Longrightarrow>
   fold (\<lambda>(k, v) d. AList.update k v d) es acc = acc @ es"
proof (induction es arbitrary: acc)
  case Nil
  then show ?case by simp
next
  case (Cons e es)
  obtain k v where e: "e = (k, v)" by (cases e)
  have k: "k \<notin> fst ` set acc" using Cons.prems e by auto
  have u: "AList.update k v acc = acc @ [(k, v)]"
    using k by (induction acc) auto
  have "distinct (map fst (acc @ [(k, v)]) @ map fst es)" using Cons.prems e by auto
  from Cons.IH [OF this] show ?case using e u by simp
qed

lemma fold_update_subset:
  "set (fold (\<lambda>(k, v) d. AList.update k v d) es acc) \<subseteq> set acc \<union> set es"
proof (induction es arbitrary: acc)
  case Nil
  then show ?case by simp
next
  case (Cons e es)
  obtain k v where e: "e = (k, v)" by (cases e)
  have "set (AList.update k v acc) \<subseteq> set acc \<union> {(k, v)}"
    by (induction acc) auto
  then show ?case using Cons.IH [of "AList.update k v acc"] e by auto
qed

lemmas path_eval =
  find_replace_in_list_def find_replace_loop_done find_replace_loop_step replace_merged_def
  split_path_multiple_def split_path_def split_loop_stop split_loop_cut path_entries_def
  build_new_paths_def

lemmas merge_eval =
  merge_simple_path_def get_path_sequence_def get_seq_from_signed_seg_num_def
  get_next_available_seg_number_def seq_prefix_def seq_suffix_def weighted_average_list_def
  get_length_def find_replace_one_val_in_list_def links_of_def remove_segments_def
  remove_nums_from_links_def add_link_def link_insert_def loaded_segment_def Segment_def
  build_other_sequence_if_necessary_def reverse_complement_def complement_base_def
  complement_forward_def complement_reverse_def Let_def

lemma chain_merge_paths:
  "map_option (map_sum id paths) (merge_simple_path [1, 2, 3] chain_with_branch)
     = Some (Inr [(''P'', [9, 7]), (''Q'', [7, 8]), (''S_1'', [7, 8]), (''S_2'', [7, 8])])"
  by (simp add: chain_with_branch_def merge_eval path_eval enumerate_eq_zip str_nat.simps
      digit_char_def upt_rec)

text \<open>
  Claim C7, as stated, fails: the kept fragments are not always renamed. Merging
  \<open>[1, 2, 3]\<close> leaves one fragment \<open>[7, 8]\<close> of the path \<open>Q = [3, 7, 8]\<close>, and it is
  stored under the name \<open>Q\<close>, not \<open>Q_1\<close>; only \<open>S\<close>, with two fragments, gets suffixes.
\<close>

theorem merge_simple_path_keeps_name_of_single_fragment:
  "map_of (paths chain_with_branch) ''Q'' = Some [3, 7, 8] \<and>
   map_option (map_sum id paths) (merge_simple_path [1, 2, 3] chain_with_branch)
     = Some (Inr [(''P'', [9, 7]), (''Q'', [7, 8]), (''S_1'', [7, 8]), (''S_2'', [7, 8])])"
  using chain_merge_paths by (simp add: chain_with_branch_def)

lemma fold_max_start: "x \<le> fold max xs (x :: int)"
proof (induction xs arbitrary: x)
  case Nil
  then show ?case by simp
next
  case (Cons y ys)
  have "x \<le> max y x" by simp
  also have "max y x \<le> fold max ys (max y x)" by (rule Cons.IH)
  finally show ?case by simp
qed

lemma fold_max_ge: "k \<in> set (x # xs) \<Longrightarrow> k \<le> fold max xs (x :: int)"
proof (induction xs arbitrary: x)
  case Nil
  then show ?case by simp
next
  case (Cons y ys)
  consider "k = x" | "k = y" | "k \<in> set ys" using Cons.prems by auto
  then show ?case
  proof cases
    case 1
    then show ?thesis using fold_max_start [of x "y # ys"] by simp
  next
    case 2
    have "k \<le> max y x" using 2 by simp
    also have "max y x \<le> fold max ys (max y x)" by (rule fold_max_start)
    finally show ?thesis by simp
  next
    case 3
    then show ?thesis using Cons.IH [of "max y x"] by simp
  qed
qed

lemma next_seg_number_fresh:
  assumes "get_next_available_seg_number g = Inr N" and "map_of (segments g) k \<noteq> None"
  shows "k < N"
proof -
  have k: "k \<in> set (map fst (segments g))" using assms(2) by (simp add: map_of_eq_None_iff)
  then obtain x xs where x: "map fst (segments g) = x # xs" by (cases "map fst (segments g)") auto
  then have "N = fold max xs x + 1" using assms(1) by (simp add: get_next_available_seg_number_def)
  moreover have "k \<le> fold max xs x" using fold_max_ge [of k x xs] k x by simp
  ultimately show ?thesis by simp
qed

lemma path_segments_of_live:
  "path_segments_of g P = Inr segs \<Longrightarrow> x \<in> set P \<Longrightarrow> map_of (segments g) \<bar>x\<bar> \<noteq> None"
  by (induction P arbitrary: segs) (auto split: option.splits sum.splits)


lemma replace_merged_replace_all:
  assumes "P \<noteq> []" and "N \<notin> set P"
  shows "replace_merged P (map uminus (rev P)) N q
           = Some (Inr (replace_all (map uminus (rev P)) (- N) (replace_all P N q)))"
proof -
  have a: "map uminus (rev P) \<noteq> []" using assms(1) by simp
  have b: "- N \<notin> set (map uminus (rev P))" using assms(2) by auto
  show ?thesis
    by (simp add: replace_merged_def find_replace_in_list_replace_all [OF assms]
        find_replace_in_list_replace_all [OF a b])
qed

lemma replace_merged_all_replace_all:
  assumes "P \<noteq> []" and "N \<notin> set P"
  shows "replace_merged_all P (map uminus (rev P)) N ps
           = Some (Inr (map (\<lambda>(name, q).
                  (name, replace_all (map uminus (rev P)) (- N) (replace_all P N q))) ps))"
proof (induction ps)
  case Nil
  then show ?case by simp
next
  case (Cons a ps)
  obtain name q where a: "a = (name, q)" by (cases a)
  show ?case using Cons.IH by (simp add: a replace_merged_replace_all [OF assms])
qed

lemma build_new_paths_entries:
  assumes "P \<noteq> []"
  shows "build_new_paths (P @ map uminus (rev P))
           (map (\<lambda>(name, q).
                  (name, replace_all (map uminus (rev P)) (- N) (replace_all P N q))) ps)
         = fold (\<lambda>(k, v) d. AList.update k v d) (merged_path_entries P N ps) []"
proof -
  have so: "P @ map uminus (rev P) \<noteq> []" using assms by simp
  have st: "set (P @ map uminus (rev P)) = set P \<union> uminus ` set P" by auto
  have "concat (map (\<lambda>(path_name, path_segments).
                  path_entries path_name
                    (split_path_multiple path_segments (P @ map uminus (rev P))))
          (map (\<lambda>(name, q).
                  (name, replace_all (map uminus (rev P)) (- N) (replace_all P N q))) ps))
        = merged_path_entries P N ps"
    by (induction ps)
       (auto simp: merged_path_entries_def path_entries_named_entries
          split_path_multiple_runs [OF so] st)
  then show ?thesis by (simp add: build_new_paths_def)
qed

lemma merged_entry_kept:
  assumes "(name, f) \<in> set (merged_path_entries P N ps)"
  shows "2 \<le> length f \<and> set f \<inter> (set P \<union> uminus ` set P) = {}"
proof -
  have m: "f \<in> set frags"
    if "(name, f) \<in> set (map (\<lambda>i. (nm @ ''_'' @ str_nat (i + 1), frags ! i)) [0..<length frags])"
    for nm frags
  proof -
    from that obtain i where "i < length frags" "f = frags ! i" by auto
    then show ?thesis by simp
  qed
  have k: "f \<in> set frags" if "(name, f) \<in> set (named_entries nm frags)" for nm frags
  proof (cases frags)
    case Nil
    then show ?thesis using that by (simp add: named_entries_def)
  next
    case (Cons a as)
    show ?thesis
    proof (cases as)
      case Nil
      then show ?thesis using that Cons by (simp add: named_entries_def)
    next
      case (Cons b bs)
      have "named_entries nm frags
              = map (\<lambda>i. (nm @ ''_'' @ str_nat (i + 1), frags ! i)) [0..<length frags]"
        unfolding named_entries_def \<open>frags = a # as\<close> Cons by (simp only: list.case)
      then show ?thesis using that m [of nm frags] by simp
    qed
  qed
  from assms obtain nm q where
    "(name, f) \<in> set (named_entries nm
        (kept_runs (set P \<union> uminus ` set P)
           (replace_all (map uminus (rev P)) (- N) (replace_all P N q))))"
    by (auto simp: merged_path_entries_def)
  from k [OF this]
  have "f \<in> set (runs (set P \<union> uminus ` set P)
                 (replace_all (map uminus (rev P)) (- N) (replace_all P N q)))"
    and "2 \<le> length f"
    by (simp_all add: kept_runs_def)
  then show ?thesis using runs_free [of f "set P \<union> uminus ` set P"] by blast
qed

text \<open>
  Claim C7, amended. \<^verbatim>\<open>merge_simple_path\<close> always returns (a graph or an
  exception). When it returns a graph, with \<open>N\<close> the new segment number, the new path
  registry holds the entries of \<open>merged_path_entries\<close>: every registered path has its
  occurrences of \<open>P\<close> replaced by \<open>N\<close> and then those of the reverse complement of \<open>P\<close>
  by \<open>-N\<close>; the result is cut at every id of \<open>P\<close> and of its reverse complement, and the
  runs of at least two ids are kept, in order; one kept run is stored under the path's own
  name, several under \<open>name_1\<close>, \<open>name_2\<close>, \<dots>, and a path with none is dropped. The
  registry is a dictionary, so of two entries with one name the later is the one that
  stays; when all names differ the registry is that list of entries, in that order. Every
  path of the new registry has at least two ids and none of \<open>P\<close> or its reverse complement.
\<close>

theorem merge_simple_path_rewrites_paths:
  "(\<exists>r. merge_simple_path P g = Some r) \<and>
   (\<forall>g'. merge_simple_path P g = Some (Inr g') \<longrightarrow>
      (\<exists>N. get_next_available_seg_number g = Inr N \<and>
         map_of (paths g') = map_of (rev (merged_path_entries P N (paths g))) \<and>
         (distinct (map fst (merged_path_entries P N (paths g)))
            \<longrightarrow> paths g' = merged_path_entries P N (paths g)) \<and>
         (\<forall>(name, f) \<in> set (paths g').
            2 \<le> length f \<and> set f \<inter> (set P \<union> uminus ` set P) = {})))"
proof (cases P)
  case Nil
  then show ?thesis by (simp add: merge_simple_path_def)
next
  case (Cons start rest)
  show ?thesis
  proof (cases "path_segments_of g P")
    case (Inl e)
    then show ?thesis using Cons by (simp add: merge_simple_path_def Let_def)
  next
    case segs: (Inr segs)
    show ?thesis
    proof (cases "get_next_available_seg_number g")
      case (Inl e)
      then show ?thesis using Cons segs by (simp add: merge_simple_path_def Let_def)
    next
      case N: (Inr N)
      show ?thesis
      proof (cases "get_path_sequence g P")
        case (Inl e)
        then show ?thesis using Cons segs N by (simp add: merge_simple_path_def Let_def)
      next
        case seq: (Inr merged)
        let ?E = "merged_path_entries P N (paths g)"
        have small: "\<bar>x\<bar> < N" if "x \<in> set P" for x
          using next_seg_number_fresh [OF N path_segments_of_live [OF segs that]] .
        have ne: "P \<noteq> []" using Cons by simp
        have f1: "N \<notin> set P" using small by fastforce
        note r = replace_merged_all_replace_all [OF ne f1, of "paths g"]
        have tot: "\<exists>r. merge_simple_path P g = Some r"
          using Cons segs N seq r by (simp add: merge_simple_path_def Let_def)
        have pg: "paths g' = fold (\<lambda>(k, v) d. AList.update k v d) ?E []"
          if "merge_simple_path P g = Some (Inr g')" for g'
          using that Cons segs N seq r build_new_paths_entries [OF ne, of N "paths g"]
          by (auto simp: merge_simple_path_def Let_def split: if_splits)
        have a: "map_of (fold (\<lambda>(k, v) d. AList.update k v d) ?E []) = map_of (rev ?E)"
          using fold_update_map_of [of ?E "[]"] by simp
        have b: "fold (\<lambda>(k, v) d. AList.update k v d) ?E [] = ?E" if "distinct (map fst ?E)"
          using fold_update_distinct [of "[]" ?E] that by simp
        have c: "2 \<le> length f \<and> set f \<inter> (set P \<union> uminus ` set P) = {}"
          if "(name, f) \<in> set (fold (\<lambda>(k, v) d. AList.update k v d) ?E [])" for name f
          using that fold_update_subset [of ?E "[]"] merged_entry_kept [of name f P N "paths g"]
          by auto
        have "map_of (paths g') = map_of (rev ?E) \<and>
              (distinct (map fst ?E) \<longrightarrow> paths g' = ?E) \<and>
              (\<forall>(name, f) \<in> set (paths g').
                 2 \<le> length f \<and> set f \<inter> (set P \<union> uminus ` set P) = {})"
          if "merge_simple_path P g = Some (Inr g')" for g'
          using pg [OF that] a b c by auto
        then show ?thesis using tot N by blast
      qed
    qed
  qed
qed

lemma chain_entries:
  "merged_path_entries [1, 2, 3] 9 (paths chain_with_branch)
     = [(''P'', [9, 7]), (''Q'', [7, 8]), (''S_1'', [7, 8]), (''S_2'', [7, 8])]"
  by (simp add: merged_path_entries_def chain_with_branch_def kept_runs_def named_entries_def
      str_nat.simps digit_char_def upt_rec)

theorem merge_simple_path_rewrites_paths_witness:
  "\<exists>g'. merge_simple_path [1, 2, 3] chain_with_branch = Some (Inr g') \<and>
     get_next_available_seg_number chain_with_branch = Inr 9 \<and>
     merged_path_entries [1, 2, 3] 9 (paths chain_with_branch)
       = [(''P'', [9, 7]), (''Q'', [7, 8]), (''S_1'', [7, 8]), (''S_2'', [7, 8])] \<and>
     paths g' = [(''P'', [9, 7]), (''Q'', [7, 8]), (''S_1'', [7, 8]), (''S_2'', [7, 8])]"
proof -
  from chain_merge_paths obtain g' where
    g': "merge_simple_path [1, 2, 3] chain_with_branch = Some (Inr g')"
    by (cases "merge_simple_path [1, 2, 3] chain_with_branch")
       (auto simp: map_sum_def split: sum.splits)
  have n: "get_next_available_seg_number chain_with_branch = Inr 9"
    by (simp add: get_next_available_seg_number_def chain_with_branch_def)
  from merge_simple_path_rewrites_paths [of "[1, 2, 3]" chain_with_branch] g' n
  have "distinct (map fst (merged_path_entries [1, 2, 3] 9 (paths chain_with_branch)))
          \<longrightarrow> paths g' = merged_path_entries [1, 2, 3] 9 (paths chain_with_branch)"
    by auto
  then have "paths g' = [(''P'', [9, 7]), (''Q'', [7, 8]), (''S_1'', [7, 8]), (''S_2'', [7, 8])]"
    by (simp add: chain_entries)
  then show ?thesis using g' n chain_entries by blast
qed

text \<open>
  A collision of names: the path \<open>S_1\<close> keeps its single piece \<open>[8, 7]\<close>, and the first
  piece of \<open>S\<close> is then stored under the same name and replaces it.
\<close>

lemma merge_simple_path_name_collision:
  "map_option (map_sum id paths) (merge_simple_path [1, 2, 3] chain_with_collision)
     = Some (Inr [(''S_1'', [7, 8]), (''S_2'', [7, 8])]) \<and>
   merged_path_entries [1, 2, 3] 9 (paths chain_with_collision)
     = [(''S_1'', [8, 7]), (''S_1'', [7, 8]), (''S_2'', [7, 8])]"
  by (simp add: chain_with_collision_def chain_with_branch_def merge_eval path_eval
      enumerate_eq_zip str_nat.simps digit_char_def upt_rec merged_path_entries_def
      kept_runs_def named_entries_def)

end
